theory Spec2Isabelle
  imports Main "HOL-Library.Sublist"
begin

section \<open>Text primitives of the Python runtime\<close>

text \<open>
  The script \<^verbatim>\<open>apply_kernelsu.py\<close> edits build-description files of a kernel tree.
  A text is the decoded content of a file, a list of characters: the code points up to
  U+00FE, and \<open>CHR 0xFF\<close> for the replacement character U+FFFD that decoding with
  \<^verbatim>\<open>errors="replace"\<close> puts where a byte does not decode. No operation of the script
  treats that character specially.
\<close>

abbreviation NL :: char where "NL \<equiv> CHR 0x0A"
abbreviation CR :: char where "CR \<equiv> CHR 0x0D"

text \<open>
  \<^verbatim>\<open>Path.read_text\<close> opens the file in text mode with universal newlines: on reading,
  \<^verbatim>\<open>\r\n\<close> and a lone \<^verbatim>\<open>\r\<close> both become \<^verbatim>\<open>\n\<close>. \<^verbatim>\<open>write_text(..., newline="\n")\<close>
  writes the characters as they are.
\<close>

fun universal_newlines :: "string \<Rightarrow> string" where
  "universal_newlines [] = []"
| "universal_newlines [c] = [if c = CR then NL else c]"
| "universal_newlines (c # d # cs) =
     (if c = CR \<and> d = NL then NL # universal_newlines cs
      else if c = CR then NL # universal_newlines (d # cs)
      else c # universal_newlines (d # cs))"

text \<open>\<^verbatim>\<open>sub in text\<close>: substring test.\<close>

fun contains :: "string \<Rightarrow> string \<Rightarrow> bool" where
  "contains [] sub = (sub = [])"
| "contains (c # cs) sub = (prefix sub (c # cs) \<or> contains cs sub)"

text \<open>\<^verbatim>\<open>text.endswith("\n")\<close>.\<close>

definition ends_with_nl :: "string \<Rightarrow> bool" where
  "ends_with_nl text = (text \<noteq> [] \<and> last text = NL)"

text \<open>\<^verbatim>\<open>text.find("\n", i)\<close>; Python's \<^verbatim>\<open>-1\<close> is \<open>None\<close>.\<close>

definition find_nl :: "string \<Rightarrow> nat \<Rightarrow> nat option" where
  "find_nl text i =
     (if NL \<in> set (drop i text)
      then Some (i + length (takeWhile (\<lambda>c. c \<noteq> NL) (drop i text)))
      else None)"

text \<open>
  \<^verbatim>\<open>text.replace(old, new)\<close>: every non-overlapping occurrence, left to right. With an
  empty \<open>old\<close> Python puts \<open>new\<close> before every character and at the end.
\<close>

fun replace_nonempty :: "string \<Rightarrow> string \<Rightarrow> string \<Rightarrow> string" where
  "replace_nonempty old new [] = []"
| "replace_nonempty old new (c # cs) =
     (if prefix old (c # cs)
      then new @ replace_nonempty old new (drop (length old - 1) cs)
      else c # replace_nonempty old new cs)"

definition str_replace :: "string \<Rightarrow> string \<Rightarrow> string \<Rightarrow> string" where
  "str_replace old new text =
     (if old = [] then new @ concat (map (\<lambda>c. c # new) text)
      else replace_nonempty old new text)"

section \<open>The regular expressions of the script\<close>

text \<open>
  The script uses \<^verbatim>\<open>re.search\<close> and \<^verbatim>\<open>re.sub\<close> with \<^verbatim>\<open>re.MULTILINE\<close>. Its patterns are
  sequences of literals, \<^verbatim>\<open>.\<close>, \<^verbatim>\<open>\s\<close>, the greedy quantifiers \<^verbatim>\<open>*\<close>, \<^verbatim>\<open>+\<close>, \<^verbatim>\<open>?\<close> on one
  of these, and the anchors \<^verbatim>\<open>^\<close> and \<^verbatim>\<open>$\<close>. The matcher below is the backtracking
  matcher of \<^verbatim>\<open>re\<close> on that fragment: a greedy quantifier takes as many characters as it
  can and gives them back one by one when the rest of the pattern fails.
\<close>

datatype atom = Ch char | Dot | Space

datatype item = One atom | Star atom | Plus atom | Opt atom | Bol | Eol

type_synonym pattern = "item list"

text \<open>
  \<^verbatim>\<open>\s\<close> on a \<^verbatim>\<open>str\<close> pattern is Unicode white space: below U+0100 these are
  the characters 9 to 13, 28 to 32, U+0085 and U+00A0.
\<close>

definition is_space :: "char \<Rightarrow> bool" where
  "is_space c = (c \<in> set [CHR 0x09, CHR 0x0A, CHR 0x0B, CHR 0x0C, CHR 0x0D,
                        CHR 0x1C, CHR 0x1D, CHR 0x1E, CHR 0x1F, CHR 0x20,
                        CHR 0x85, CHR 0xA0])"

fun atom_ok :: "atom \<Rightarrow> char \<Rightarrow> bool" where
  "atom_ok (Ch d) c = (c = d)"
| "atom_ok Dot c = (c \<noteq> NL)"
| "atom_ok Space c = is_space c"

text \<open>
  \<open>match_here p bol s\<close> matches \<open>p\<close> at the head of the rest \<open>s\<close> of the text and
  returns the number of characters of the match; \<open>bol\<close> says that the position is the
  start of the text or follows a newline (where \<^verbatim>\<open>^\<close> matches in multi-line mode).
  \<^verbatim>\<open>$\<close> matches at the end of the text and before a newline.
\<close>

fun match_here :: "pattern \<Rightarrow> bool \<Rightarrow> string \<Rightarrow> nat option" where
  "match_here [] bol s = Some 0"
| "match_here (Bol # p) bol s = (if bol then match_here p bol s else None)"
| "match_here (Eol # p) bol [] = match_here p bol []"
| "match_here (Eol # p) bol (c # s) = (if c = NL then match_here p bol (c # s) else None)"
| "match_here (One a # p) bol [] = None"
| "match_here (One a # p) bol (c # s) =
     (if atom_ok a c then map_option Suc (match_here p (c = NL) s) else None)"
| "match_here (Plus a # p) bol [] = None"
| "match_here (Plus a # p) bol (c # s) =
     (if atom_ok a c then map_option Suc (match_here (Star a # p) (c = NL) s) else None)"
| "match_here (Opt a # p) bol [] = match_here p bol []"
| "match_here (Opt a # p) bol (c # s) =
     (if atom_ok a c
      then (case match_here p (c = NL) s of
              Some n \<Rightarrow> Some (Suc n)
            | None \<Rightarrow> match_here p bol (c # s))
      else match_here p bol (c # s))"
| "match_here (Star a # p) bol [] = match_here p bol []"
| "match_here (Star a # p) bol (c # s) =
     (if atom_ok a c
      then (case match_here (Star a # p) (c = NL) s of
              Some n \<Rightarrow> Some (Suc n)
            | None \<Rightarrow> match_here p bol (c # s))
      else match_here p bol (c # s))"

text \<open>
  \<^verbatim>\<open>re.search\<close>: the match at the leftmost position that has one, as the pair of
  its start and end offsets (\<^verbatim>\<open>m.start(0)\<close>, \<^verbatim>\<open>m.end(0)\<close>).
\<close>

fun search_from :: "pattern \<Rightarrow> bool \<Rightarrow> string \<Rightarrow> nat \<Rightarrow> (nat \<times> nat) option" where
  "search_from p bol [] k = map_option (\<lambda>n. (k, k + n)) (match_here p bol [])"
| "search_from p bol (c # s) k =
     (case match_here p bol (c # s) of
        Some n \<Rightarrow> Some (k, k + n)
      | None \<Rightarrow> search_from p (c = NL) s (Suc k))"

definition re_search :: "pattern \<Rightarrow> string \<Rightarrow> (nat \<times> nat) option" where
  "re_search p text = search_from p True text 0"

text \<open>
  \<^verbatim>\<open>re.sub\<close> with a replacement that has no backslash (it is then taken literally):
  the text is scanned from the left, every match is replaced and the scan resumes at
  its end; after an empty match the next character is copied.
\<close>

function sub_from :: "pattern \<Rightarrow> string \<Rightarrow> bool \<Rightarrow> string \<Rightarrow> string" where
  "sub_from p repl bol [] = (case match_here p bol [] of Some n \<Rightarrow> repl | None \<Rightarrow> [])"
| "sub_from p repl bol (c # s) =
     (case match_here p bol (c # s) of
        None \<Rightarrow> c # sub_from p repl (c = NL) s
      | Some 0 \<Rightarrow> repl @ c # sub_from p repl (c = NL) s
      | Some (Suc n) \<Rightarrow> repl @ sub_from p repl ((c # s) ! n = NL) (drop n s))"
  by pat_completeness auto
termination
  by (relation "measure (\<lambda>(p, repl, bol, s). length s)") auto

definition re_sub :: "pattern \<Rightarrow> string \<Rightarrow> string \<Rightarrow> string" where
  "re_sub p repl text = sub_from p repl True text"

text \<open>\<^verbatim>\<open>re.escape(s)\<close> followed by compilation: the pattern that matches \<open>s\<close> literally.\<close>

definition lit :: "string \<Rightarrow> pattern" where
  "lit s = map (\<lambda>c. One (Ch c)) s"

section \<open>The Text-Line Mutator\<close>

text \<open>
  The text transformation of \<^verbatim>\<open>ensure_line_in_file\<close>: \<open>None\<close> when the function returns
  without writing, otherwise the text it writes. \<^verbatim>\<open>if after_regex:\<close> is false for
  \<^verbatim>\<open>None\<close> and for the empty string.
\<close>

definition insertion_point :: "string \<Rightarrow> nat \<Rightarrow> nat" where
  "insertion_point text e =
     (if e < length text \<and> text ! e \<noteq> NL
      then (case find_nl text e of Some j \<Rightarrow> j | None \<Rightarrow> length text)
      else e)"

definition insert_line_at :: "string \<Rightarrow> nat \<Rightarrow> string \<Rightarrow> string" where
  "insert_line_at text insert_at line =
     take insert_at text
     @ ((if insert_at > 0 \<and> text ! (insert_at - 1) \<noteq> NL then [NL] else []) @ line @ [NL])
     @ drop insert_at text"

definition append_line :: "string \<Rightarrow> string \<Rightarrow> string" where
  "append_line text line = (if \<not> ends_with_nl text then text @ [NL] else text) @ line @ [NL]"

definition anchor_match :: "pattern option \<Rightarrow> string \<Rightarrow> (nat \<times> nat) option" where
  "anchor_match after_regex text =
     (case after_regex of
        None \<Rightarrow> None
      | Some p \<Rightarrow> if p = [] then None else re_search p text)"

definition ensure_line_text :: "string \<Rightarrow> pattern option \<Rightarrow> string \<Rightarrow> string option" where
  "ensure_line_text line after_regex text =
     (if contains text line then None
      else case anchor_match after_regex text of
             Some (s, e) \<Rightarrow> Some (insert_line_at text (insertion_point text e) line)
           | None \<Rightarrow> Some (append_line text line))"

section \<open>The Config-Symbol Setter\<close>

text \<open>
  The three patterns of \<^verbatim>\<open>set_defconfig_symbol\<close>:
  \<^verbatim>\<open>^#\s*CONFIG_<sym>\s+is\s+not\s+set\s*$\n?\<close>, \<^verbatim>\<open>^CONFIG_<sym>=\<close> and
  \<^verbatim>\<open>^CONFIG_<sym>=.*$\<close>, with \<^verbatim>\<open><sym>\<close> escaped by \<^verbatim>\<open>re.escape\<close>.
\<close>

definition marker_pattern :: "string \<Rightarrow> pattern" where
  "marker_pattern symb =
     [Bol, One (Ch (CHR ''#'')), Star Space] @ lit ''CONFIG_'' @ lit symb
     @ [Plus Space] @ lit ''is'' @ [Plus Space] @ lit ''not'' @ [Plus Space] @ lit ''set''
     @ [Star Space, Eol, Opt (Ch NL)]"

definition assign_prefix_pattern :: "string \<Rightarrow> pattern" where
  "assign_prefix_pattern symb = [Bol] @ lit ''CONFIG_'' @ lit symb @ lit ''=''"

definition assign_line_pattern :: "string \<Rightarrow> pattern" where
  "assign_line_pattern symb = [Bol] @ lit ''CONFIG_'' @ lit symb @ lit ''='' @ [Star Dot, Eol]"

definition config_line :: "string \<Rightarrow> string \<Rightarrow> string" where
  "config_line symb val = ''CONFIG_'' @ symb @ ''='' @ val"

text \<open>The text transformation of \<^verbatim>\<open>set_defconfig_symbol\<close>; the function always writes.\<close>

definition set_defconfig_text :: "string \<Rightarrow> string \<Rightarrow> string \<Rightarrow> string" where
  "set_defconfig_text symb val text =
     (let text1 = re_sub (marker_pattern symb) [] text;
          line = config_line symb val
      in if re_search (assign_prefix_pattern symb) text1 \<noteq> None
         then re_sub (assign_line_pattern symb) line text1
         else append_line text1 line)"

section \<open>The file system and the operations on files\<close>

text \<open>
  A path is the list of the components of a resolved absolute path. The file system maps
  a path to a regular file or to a directory; symbolic links and permissions are outside
  the model. \<open>File c\<close> gives the content of a regular file as the text \<open>c\<close> that its bytes
  decode to (UTF-8, \<^verbatim>\<open>errors="replace"\<close>), before any translation of newlines. For a file
  whose bytes are not valid UTF-8, and so are not the encoding of that text, \<open>raw\<close> holds
  the bytes; for every other file \<open>raw\<close> is \<open>None\<close> and the bytes are the encoding of the
  text. \<open>writes\<close> logs the paths written by \<^verbatim>\<open>write_text\<close>, \<open>stdout\<close> the lines printed.
\<close>

type_synonym path = "string list"

datatype node = File string | Dir

record fs =
  nodes :: "path \<Rightarrow> node option"
  raw :: "path \<Rightarrow> string option"
  writes :: "path list"
  stdout :: "string list"

datatype error =
    SystemExit string
  | FileNotFoundError path
  | IsADirectoryError path
  | NotADirectoryError path
  | FileExistsError path
  | RecursionError
  | SubprocessError string

text \<open>\<^verbatim>\<open>str(path)\<close> of an absolute POSIX path.\<close>

definition path_str :: "path \<Rightarrow> string" where
  "path_str p = (if p = [] then ''/'' else concat (map (\<lambda>c. CHR ''/'' # c) p))"

definition read_text :: "path \<Rightarrow> fs \<Rightarrow> error + string" where
  "read_text p s =
     (case nodes s p of
        None \<Rightarrow> Inl (FileNotFoundError p)
      | Some Dir \<Rightarrow> Inl (IsADirectoryError p)
      | Some (File c) \<Rightarrow> Inr (universal_newlines c))"

text \<open>
  \<^verbatim>\<open>write_text(text, newline="\n")\<close>; every call in the script follows a successful
  \<^verbatim>\<open>read_text\<close> of the same path, so the path is a regular file. The file then holds the
  encoding of the text: bytes that did not decode are gone, replaced by the encoding of
  the replacement character.
\<close>

definition write_text :: "path \<Rightarrow> string \<Rightarrow> fs \<Rightarrow> fs" where
  "write_text p text s =
     s\<lparr>nodes := (nodes s)(p \<mapsto> File text), raw := (raw s)(p := None),
       writes := writes s @ [p]\<rparr>"

definition is_file :: "fs \<Rightarrow> path \<Rightarrow> bool" where
  "is_file s p = (case nodes s p of Some (File c) \<Rightarrow> True | _ \<Rightarrow> False)"

definition ensure_line_in_file ::
  "path \<Rightarrow> string \<Rightarrow> pattern option \<Rightarrow> fs \<Rightarrow> error option \<times> fs" where
  "ensure_line_in_file p line after_regex s =
     (case read_text p s of
        Inl e \<Rightarrow> (Some e, s)
      | Inr text \<Rightarrow>
          (case ensure_line_text line after_regex text of
             None \<Rightarrow> (None, s)
           | Some text' \<Rightarrow> (None, write_text p text' s)))"

definition set_defconfig_symbol :: "path \<Rightarrow> string \<Rightarrow> string \<Rightarrow> fs \<Rightarrow> error option \<times> fs" where
  "set_defconfig_symbol p symb val s =
     (case read_text p s of
        Inl e \<Rightarrow> (Some e, s)
      | Inr text \<Rightarrow> (None, write_text p (set_defconfig_text symb val text) s))"

text \<open>Running one step after another; an exception ends the run with the state it left.\<close>

definition and_then ::
  "(fs \<Rightarrow> error option \<times> fs) \<Rightarrow> (fs \<Rightarrow> error option \<times> fs) \<Rightarrow> fs \<Rightarrow> error option \<times> fs" where
  "and_then f g s = (case f s of (Some e, s') \<Rightarrow> (Some e, s') | (None, s') \<Rightarrow> g s')"

section \<open>The Source Tree Copier\<close>

text \<open>
  \<^verbatim>\<open>shutil.rmtree\<close> removes the directory and everything below it; on a regular file it
  raises. \<^verbatim>\<open>shutil.copytree\<close> creates the destination with its missing parents and copies
  every entry below the source, byte for byte. Where the destination lies inside the source Python
  descends into its own copy until it fails; the model reports that run as
  \<open>RecursionError\<close> and says nothing of the state it leaves.
\<close>

definition rmtree :: "path \<Rightarrow> fs \<Rightarrow> error option \<times> fs" where
  "rmtree d s =
     (case nodes s d of
        None \<Rightarrow> (Some (FileNotFoundError d), s)
      | Some (File c) \<Rightarrow> (Some (NotADirectoryError d), s)
      | Some Dir \<Rightarrow>
          (None, s\<lparr>nodes := (\<lambda>p. if prefix d p then None else nodes s p),
                    raw := (\<lambda>p. if prefix d p then None else raw s p)\<rparr>))"

definition copytree :: "path \<Rightarrow> path \<Rightarrow> fs \<Rightarrow> error option \<times> fs" where
  "copytree src dst s =
     (case nodes s src of
        None \<Rightarrow> (Some (FileNotFoundError src), s)
      | Some (File c) \<Rightarrow> (Some (NotADirectoryError src), s)
      | Some Dir \<Rightarrow>
          if nodes s dst \<noteq> None then (Some (FileExistsError dst), s)
          else if list_ex (\<lambda>q. q \<noteq> dst \<and> is_file s q) (prefixes dst)
          then (Some (NotADirectoryError dst), s)
          else if prefix src dst then (Some RecursionError, s)
          else (None, s\<lparr>nodes := (\<lambda>p. if prefix dst p then nodes s (src @ drop (length dst) p)
                                        else if prefix p dst then Some Dir
                                        else nodes s p),
                         raw := (\<lambda>p. if prefix dst p then raw s (src @ drop (length dst) p)
                                      else raw s p)\<rparr>))"

text \<open>The source and the destination of the copy (\<^verbatim>\<open>src\<close> and \<^verbatim>\<open>dst\<close> in the script).\<close>

definition ksu_src :: "path \<Rightarrow> path" where
  "ksu_src ksu_repo = ksu_repo @ [''kernel'']"

definition ksu_dst :: "path \<Rightarrow> path" where
  "ksu_dst kernel_repo = kernel_repo @ [''drivers'', ''kernelsu'']"

definition remove_existing :: "path \<Rightarrow> fs \<Rightarrow> error option \<times> fs" where
  "remove_existing dst s = (if nodes s dst \<noteq> None then rmtree dst s else (None, s))"

definition normalize_kconfig :: "path \<Rightarrow> fs \<Rightarrow> error option \<times> fs" where
  "normalize_kconfig kconfig s =
     (if nodes s kconfig \<noteq> None
      then (case read_text kconfig s of
              Inl e \<Rightarrow> (Some e, s)
            | Inr text \<Rightarrow> (None, write_text kconfig text s))
      else (None, s))"

definition copy_kernelsu_sources :: "path \<Rightarrow> path \<Rightarrow> fs \<Rightarrow> error option \<times> fs" where
  "copy_kernelsu_sources ksu_repo kernel_repo s =
     (if nodes s (ksu_src ksu_repo) \<noteq> Some Dir
      then (Some (SystemExit (''KernelSU sources not found at: ''
                               @ path_str (ksu_src ksu_repo))), s)
      else
        and_then (remove_existing (ksu_dst kernel_repo))
       (and_then (copytree (ksu_src ksu_repo) (ksu_dst kernel_repo))
                 (normalize_kconfig (ksu_dst kernel_repo @ [''Kconfig'']))) s)"

section \<open>The Patch Applier\<close>

text \<open>
  \<^verbatim>\<open>git apply\<close> is an external program: the model takes it as the parameter \<open>git\<close>, from the
  working directory, the patch path and the file system to the outcome of
  \<^verbatim>\<open>subprocess.run\<close> and the file system the program leaves. The outcome is either a
  completed run, with the return code and the captured standard output and standard
  error, or an exception of \<^verbatim>\<open>subprocess.run\<close> itself (no \<^verbatim>\<open>git\<close> executable, output that
  does not decode), given by its description. Before the program is looked for, the
  child process changes to the working directory, and that fails when the directory is
  missing or is a regular file. With \<^verbatim>\<open>check=True\<close> a return code other than 0 raises
  \<^verbatim>\<open>CalledProcessError\<close>, the one exception that \<^verbatim>\<open>apply_optional_patch\<close> catches. Paths
  of the model are resolved already, so \<^verbatim>\<open>resolve()\<close> changes nothing.
\<close>

datatype run_outcome = Completed int string string | Failed string

type_synonym git_apply = "path \<Rightarrow> path \<Rightarrow> fs \<Rightarrow> run_outcome \<times> fs"

definition patch_failure_message :: "path \<Rightarrow> string \<Rightarrow> string \<Rightarrow> string" where
  "patch_failure_message patch_file out err =
     ''Failed to apply build-fixes patch.'' @ [NL]
     @ ''patch: '' @ path_str patch_file @ [NL]
     @ ''stdout:'' @ [NL] @ out @ [NL]
     @ ''stderr:'' @ [NL] @ err @ [NL]"

definition apply_optional_patch :: "git_apply \<Rightarrow> path \<Rightarrow> path \<Rightarrow> fs \<Rightarrow> error option \<times> fs" where
  "apply_optional_patch git kernel_repo patch_file s =
     (if nodes s patch_file = None then (None, s)
      else case nodes s kernel_repo of
             None \<Rightarrow> (Some (FileNotFoundError kernel_repo), s)
           | Some (File c) \<Rightarrow> (Some (NotADirectoryError kernel_repo), s)
           | Some Dir \<Rightarrow>
               (case git kernel_repo patch_file s of
                  (Failed description, s') \<Rightarrow> (Some (SubprocessError description), s')
                | (Completed rc out err, s') \<Rightarrow>
                    if rc \<noteq> 0
                    then (Some (SystemExit (patch_failure_message patch_file out err)), s')
                    else (None, s')))"

section \<open>The Orchestrator\<close>

definition makefile_anchor :: pattern where
  "makefile_anchor =
     [Bol] @ lit ''obj-$(CONFIG_'' @ [Star Dot] @ lit '')'' @ [Star Space] @ lit ''+=''
     @ [Star Dot, Eol]"

definition ksu_makefile_line :: string where
  "ksu_makefile_line = ''obj-$(CONFIG_KSU) += kernelsu/''"

definition ksu_kconfig_line :: string where
  "ksu_kconfig_line = ''source '' @ [CHR 0x22] @ ''drivers/kernelsu/Kconfig'' @ [CHR 0x22]"

definition fix_dtc_makefile :: "path \<Rightarrow> fs \<Rightarrow> error option \<times> fs" where
  "fix_dtc_makefile dtc s =
     (if nodes s dtc \<noteq> None
      then (case read_text dtc s of
              Inl e \<Rightarrow> (Some e, s)
            | Inr dtc_text \<Rightarrow>
                if contains dtc_text ''HOSTLDLIBS_dtc'' \<and> \<not> contains dtc_text ''HOSTLOADLIBES_dtc''
                then (None, write_text dtc
                              (str_replace ''HOSTLDLIBS_dtc'' ''HOSTLOADLIBES_dtc'' dtc_text) s)
                else (None, s))
      else (None, s))"

text \<open>The four files of the kernel tree that \<^verbatim>\<open>patch_kernel_tree\<close> names.\<close>

definition drivers_makefile :: "path \<Rightarrow> path" where
  "drivers_makefile kernel_repo = kernel_repo @ [''drivers'', ''Makefile'']"

definition drivers_kconfig :: "path \<Rightarrow> path" where
  "drivers_kconfig kernel_repo = kernel_repo @ [''drivers'', ''Kconfig'']"

definition defconfig :: "path \<Rightarrow> path" where
  "defconfig kernel_repo = kernel_repo @ [''arch'', ''arm64'', ''configs'', ''RMX3265_defconfig'']"

definition dtc_makefile :: "path \<Rightarrow> path" where
  "dtc_makefile kernel_repo = kernel_repo @ [''scripts'', ''dtc'', ''Makefile'']"

definition patch_kernel_tree :: "path \<Rightarrow> fs \<Rightarrow> error option \<times> fs" where
  "patch_kernel_tree kernel_repo s =
     (if nodes s (drivers_makefile kernel_repo) = None
      then (Some (SystemExit (''Missing '' @ path_str (drivers_makefile kernel_repo))), s)
      else if nodes s (drivers_kconfig kernel_repo) = None
      then (Some (SystemExit (''Missing '' @ path_str (drivers_kconfig kernel_repo))), s)
      else if nodes s (defconfig kernel_repo) = None
      then (Some (SystemExit (''Missing '' @ path_str (defconfig kernel_repo))), s)
      else
        and_then (fix_dtc_makefile (dtc_makefile kernel_repo))
       (and_then (ensure_line_in_file (drivers_makefile kernel_repo) ksu_makefile_line
                    (Some makefile_anchor))
       (and_then (ensure_line_in_file (drivers_kconfig kernel_repo) ksu_kconfig_line None)
       (and_then (set_defconfig_symbol (defconfig kernel_repo) ''KSU'' ''y'')
       (and_then (set_defconfig_symbol (defconfig kernel_repo) ''KPROBES'' ''y'')
                 (set_defconfig_symbol (defconfig kernel_repo) ''KPROBE_EVENTS'' ''y''))))) s)"

definition success_message :: string where
  "success_message = ''Applied KernelSU (v0.9.5) non-GKI integration + RMX3265 build fixes.''"

text \<open>
  \<^verbatim>\<open>main\<close>, from the resolved paths of the two repositories and of the directory of the
  script.
\<close>

definition patch_path :: "path \<Rightarrow> path" where
  "patch_path builder_root = builder_root @ [''patches'', ''rmx3265_build_fixes.patch'']"

definition main :: "git_apply \<Rightarrow> path \<Rightarrow> path \<Rightarrow> path \<Rightarrow> fs \<Rightarrow> error option \<times> fs" where
  "main git kernel_repo ksu_repo builder_root s =
     and_then (apply_optional_patch git kernel_repo (patch_path builder_root))
    (and_then (copy_kernelsu_sources ksu_repo kernel_repo)
    (and_then (patch_kernel_tree kernel_repo)
              (\<lambda>s. (None, s\<lparr>stdout := stdout s @ [success_message]\<rparr>)))) s"

section \<open>Notions used in the statements\<close>

text \<open>The files that \<^verbatim>\<open>patch_kernel_tree\<close> requires, in the order in which it checks them.\<close>

definition required_files :: "path \<Rightarrow> path list" where
  "required_files k = [drivers_makefile k, drivers_kconfig k, defconfig k]"

text \<open>
  What the copy leaves at the destination for a node of the source: the node itself,
  except that the file \<^verbatim>\<open>Kconfig\<close> at the top of the tree has its line endings
  normalised.
\<close>

fun normalized_node :: "node \<Rightarrow> node" where
  "normalized_node (File c) = File (universal_newlines c)"
| "normalized_node Dir = Dir"

definition mirrored :: "path \<Rightarrow> node option \<Rightarrow> node option" where
  "mirrored q n = (if q = [''Kconfig''] then map_option normalized_node n else n)"

text \<open>The match of a pattern at offset \<open>k\<close> of a text, as its length.\<close>

definition match_at :: "pattern \<Rightarrow> string \<Rightarrow> nat \<Rightarrow> nat option" where
  "match_at p txt k = match_here p (k = 0 \<or> txt ! (k - 1) = NL) (drop k txt)"

text \<open>The number of offsets of a text at which \<open>sub\<close> occurs.\<close>

fun count_occ :: "string \<Rightarrow> string \<Rightarrow> nat" where
  "count_occ [] sub = (if sub = [] then 1 else 0)"
| "count_occ (c # cs) sub = (if prefix sub (c # cs) then 1 else 0) + count_occ cs sub"

text \<open>
  The lines of a text: the pieces between newlines, without an empty piece after the
  last newline.
\<close>

fun lines_of :: "string \<Rightarrow> string list" where
  "lines_of [] = []"
| "lines_of (c # cs) =
     (if c = NL then [] # lines_of cs
      else (case lines_of cs of [] \<Rightarrow> [[c]] | l # ls \<Rightarrow> (c # l) # ls))"

text \<open>The first line of a text, and the text after its first newline.\<close>

definition first_line :: "string \<Rightarrow> string" where
  "first_line s = takeWhile (\<lambda>c. c \<noteq> NL) s"

definition after_first_line :: "string \<Rightarrow> string" where
  "after_first_line s = drop 1 (dropWhile (\<lambda>c. c \<noteq> NL) s)"

text \<open>A match of \<open>n\<close> characters ends a line: at the end of the text, or after a newline.\<close>

definition ends_line :: "string \<Rightarrow> nat \<Rightarrow> bool" where
  "ends_line s n = (drop n s = [] \<or> (0 < n \<and> s ! (n - 1) = NL))"

text \<open>A pattern that matches at the head of \<open>s\<close> whatever precedes it.\<close>

definition always_matches :: "pattern \<Rightarrow> string \<Rightarrow> bool" where
  "always_matches p s = (\<forall>b. match_here p b s \<noteq> None)"

text \<open>The disabled marker of a symbol, and the start of an assignment to it.\<close>

definition marker_line :: "string \<Rightarrow> string" where
  "marker_line symb = ''# CONFIG_'' @ symb @ '' is not set''"

definition assign_prefix :: "string \<Rightarrow> string" where
  "assign_prefix symb = ''CONFIG_'' @ symb @ ''=''"

section \<open>The specification's reading of two steps\<close>

text \<open>
  The specification says that the insertion point is the end offset of the last match,
  matches being scanned in document order. \<open>finditer\<close> lists the matches as
  \<^verbatim>\<open>re.finditer\<close> does, and \<open>spec_ensure_line_text\<close> is the mutator with the end of
  the last of them in place of the end of the first.
\<close>

function finditer_from :: "pattern \<Rightarrow> bool \<Rightarrow> string \<Rightarrow> nat \<Rightarrow> (nat \<times> nat) list" where
  "finditer_from p bol [] k = (case match_here p bol [] of Some n \<Rightarrow> [(k, k)] | None \<Rightarrow> [])"
| "finditer_from p bol (c # s) k =
     (case match_here p bol (c # s) of
        None \<Rightarrow> finditer_from p (c = NL) s (Suc k)
      | Some 0 \<Rightarrow> (k, k) # finditer_from p (c = NL) s (Suc k)
      | Some (Suc n) \<Rightarrow>
          (k, k + Suc n) # finditer_from p ((c # s) ! n = NL) (drop n s) (k + Suc n))"
  by pat_completeness auto
termination
  by (relation "measure (\<lambda>(p, bol, s, k). length s)") auto

definition finditer :: "pattern \<Rightarrow> string \<Rightarrow> (nat \<times> nat) list" where
  "finditer p txt = finditer_from p True txt 0"

definition spec_last_match_end :: "pattern option \<Rightarrow> string \<Rightarrow> nat option" where
  "spec_last_match_end after_regex txt =
     (case after_regex of
        None \<Rightarrow> None
      | Some p \<Rightarrow> if p = [] \<or> finditer p txt = [] then None
                  else Some (snd (last (finditer p txt))))"

definition spec_ensure_line_text :: "string \<Rightarrow> pattern option \<Rightarrow> string \<Rightarrow> string option" where
  "spec_ensure_line_text line after_regex txt =
     (if contains txt line then None
      else case spec_last_match_end after_regex txt of
             Some e \<Rightarrow> Some (insert_line_at txt (insertion_point txt e) line)
           | None \<Rightarrow> Some (append_line txt line))"

text \<open>
  The specification says that the fallback appends the line after ensuring that the file
  ends with exactly one newline.
\<close>

definition spec_append_line :: "string \<Rightarrow> string \<Rightarrow> string" where
  "spec_append_line txt line =
     rev (dropWhile (\<lambda>c. c = NL) (rev txt)) @ [NL] @ line @ [NL]"

section \<open>Example inputs\<close>

definition crlf_state :: fs where
  "crlf_state =
     \<lparr>nodes = [[''k'', ''drivers'', ''Kconfig'']
                 \<mapsto> File (''menu'' @ [CR, NL] @ ''source x'' @ [CR, NL])],
      raw = Map.empty, writes = [], stdout = []\<rparr>"

text \<open>
  A kernel tree \<^verbatim>\<open>/k\<close> with an older copy of the driver and no defconfig, and a module
  repository \<^verbatim>\<open>/ksu\<close> whose \<^verbatim>\<open>Kconfig\<close> has Windows line endings.
\<close>

definition tree_nodes :: "(path \<times> node) list" where
  "tree_nodes =
     [([''ksu''], Dir),
      ([''ksu'', ''kernel''], Dir),
      ([''ksu'', ''kernel'', ''Kconfig''], File (''config KSU'' @ [CR, NL])),
      ([''ksu'', ''kernel'', ''ksu.c''], File (''int ksu;'' @ [NL])),
      ([''k''], Dir),
      ([''k'', ''drivers''], Dir),
      ([''k'', ''drivers'', ''Makefile''], File (''obj-y += base/'' @ [NL])),
      ([''k'', ''drivers'', ''Kconfig''], File (''menu Drivers'' @ [NL])),
      ([''k'', ''drivers'', ''kernelsu''], Dir),
      ([''k'', ''drivers'', ''kernelsu'', ''stale.c''], File (''int old;'' @ [NL]))]"

definition tree_state :: fs where
  "tree_state = \<lparr>nodes = map_of tree_nodes, raw = Map.empty, writes = [], stdout = []\<rparr>"

definition no_makefile_state :: fs where
  "no_makefile_state = \<lparr>nodes = Map.empty, raw = Map.empty, writes = [], stdout = []\<rparr>"

definition no_kconfig_state :: fs where
  "no_kconfig_state =
     \<lparr>nodes = [[''k'', ''drivers'', ''Makefile''] \<mapsto> File []], raw = Map.empty, writes = [], stdout = []\<rparr>"

definition complete_state :: fs where
  "complete_state =
     \<lparr>nodes = [[''k'', ''drivers'', ''Makefile''] \<mapsto> File [],
               [''k'', ''drivers'', ''Kconfig''] \<mapsto> File [],
               [''k'', ''arch'', ''arm64'', ''configs'', ''RMX3265_defconfig''] \<mapsto> File []],
      raw = Map.empty, writes = [], stdout = []\<rparr>"

text \<open>
  A \<^verbatim>\<open>git apply\<close> that fails and one that succeeds, both leaving the tree alone, and a
  machine with no \<^verbatim>\<open>git\<close> executable.
\<close>

definition failing_git :: git_apply where
  "failing_git cwd patch_file s = (Completed 1 ''checking'' ''error: patch failed'', s)"

definition passing_git :: git_apply where
  "passing_git cwd patch_file s = (Completed 0 [] [], s)"

definition missing_git :: git_apply where
  "missing_git cwd patch_file s = (Failed ''No such file or directory: git'', s)"

text \<open>A patch file next to a kernel directory, and a patch file with no kernel directory.\<close>

definition patch_state :: fs where
  "patch_state =
     \<lparr>nodes = [[''b'', ''patches'', ''rmx3265_build_fixes.patch''] \<mapsto> File ''diff'',
               [''k''] \<mapsto> Dir],
      raw = Map.empty, writes = [], stdout = []\<rparr>"

definition no_kernel_state :: fs where
  "no_kernel_state =
     \<lparr>nodes = [[''b'', ''patches'', ''rmx3265_build_fixes.patch''] \<mapsto> File ''diff''],
      raw = Map.empty, writes = [], stdout = []\<rparr>"

text \<open>
  A module repository whose \<^verbatim>\<open>Kconfig\<close> and \<^verbatim>\<open>blob.bin\<close> both hold the byte \<^verbatim>\<open>0xC0\<close>,
  which does not decode, and no carriage return.
\<close>

definition undecodable_state :: fs where
  "undecodable_state =
     \<lparr>nodes = [[''ksu'', ''kernel''] \<mapsto> Dir,
               [''ksu'', ''kernel'', ''Kconfig''] \<mapsto> File (''config '' @ [CHR 0xFF, NL]),
               [''ksu'', ''kernel'', ''blob.bin''] \<mapsto> File [CHR 0xFF]],
      raw = [[''ksu'', ''kernel'', ''Kconfig''] \<mapsto> ''config '' @ [CHR 0xC0, NL],
             [''ksu'', ''kernel'', ''blob.bin''] \<mapsto> [CHR 0xC0]],
      writes = [], stdout = []\<rparr>"

text \<open>
  A drivers Makefile with three conditional-build lines followed by other content, and
  one whose first line is a comment.
\<close>

definition three_rules :: string where
  "three_rules =
     ''obj-$(CONFIG_A) += a/'' @ [NL] @ ''obj-$(CONFIG_B) += b/'' @ [NL]
     @ ''obj-$(CONFIG_C) += c/'' @ [NL] @ ''foo'' @ [NL]"

definition commented_rules :: string where
  "commented_rules = ''# x'' @ [NL] @ ''obj-$(CONFIG_A) += a/'' @ [NL] @ ''foo'' @ [NL]"

definition makefile_state :: fs where
  "makefile_state =
     \<lparr>nodes = [[''k'', ''drivers'', ''Makefile''] \<mapsto> File (''obj-y += base/'' @ [CR, NL])],
      raw = Map.empty, writes = [], stdout = []\<rparr>"

text \<open>
  A kernel tree whose defconfig holds a disabled marker between a lone \<^verbatim>\<open>#\<close> line and a
  line that reads like the rest of a marker.
\<close>

definition split_marker_defconfig :: string where
  "split_marker_defconfig =
     ''#'' @ [NL] @ ''# CONFIG_KSU is not set'' @ [NL] @ ''CONFIG_KSU is not set'' @ [NL]"

definition split_marker_state :: fs where
  "split_marker_state =
     \<lparr>nodes = [[''k'', ''drivers'', ''Makefile''] \<mapsto> File (''obj-y += base/'' @ [NL]),
               [''k'', ''drivers'', ''Kconfig''] \<mapsto> File (''menu Drivers'' @ [NL]),
               [''k'', ''arch'', ''arm64'', ''configs'', ''RMX3265_defconfig'']
                 \<mapsto> File split_marker_defconfig],
      raw = Map.empty, writes = [], stdout = []\<rparr>"

text \<open>Defconfig files: the symbol switched off, marked as disabled, and assigned twice.\<close>

definition defconfig_state :: "string \<Rightarrow> fs" where
  "defconfig_state content =
     \<lparr>nodes = [defconfig [''k''] \<mapsto> File content], raw = Map.empty, writes = [], stdout = []\<rparr>"

definition ksu_off :: string where
  "ksu_off = ''CONFIG_A=y'' @ [NL] @ ''CONFIG_KSU=n'' @ [CR, NL]"

definition ksu_marked :: string where
  "ksu_marked = ''# CONFIG_KSU is not set'' @ [NL] @ ''CONFIG_A=y'' @ [NL]"

definition ksu_twice :: string where
  "ksu_twice = ''CONFIG_KSU=n'' @ [NL] @ ''CONFIG_KSU=m'' @ [NL]"

section \<open>The Text-Line Mutator leaves a file that has the line alone\<close>

text \<open>
  C9. When the text of the file, as read, already contains the line as a substring,
  \<^verbatim>\<open>ensure_line_in_file\<close> returns before any write: the file system is the one it
  started from, with the stored content of the file (carriage returns included) and the
  log of writes unchanged.
\<close>

theorem ensure_line_present_no_write:
  assumes "nodes s p = Some (File c)" and "contains (universal_newlines c) line"
  shows "ensure_line_in_file p line after_regex s = (None, s)"
  using assms by (simp add: ensure_line_in_file_def read_text_def ensure_line_text_def)

theorem ensure_line_present_no_write_witness:
  "ensure_line_in_file [''k'', ''drivers'', ''Kconfig''] ''source x'' None crlf_state
     = (None, crlf_state)
   \<and> nodes crlf_state [''k'', ''drivers'', ''Kconfig'']
     = Some (File (''menu'' @ [CR, NL] @ ''source x'' @ [CR, NL]))
   \<and> writes (snd (ensure_line_in_file [''k'', ''drivers'', ''Kconfig''] ''source x'' None
                    crlf_state)) = []"
proof -
  have a: "nodes crlf_state [''k'', ''drivers'', ''Kconfig'']
             = Some (File (''menu'' @ [CR, NL] @ ''source x'' @ [CR, NL]))"
    by (simp add: crlf_state_def)
  have b: "contains (universal_newlines (''menu'' @ [CR, NL] @ ''source x'' @ [CR, NL]))
             ''source x''"
    by simp
  show ?thesis
    using ensure_line_present_no_write [OF a b, of None] a by (simp add: crlf_state_def)
qed

section \<open>Facts about substrings and about sequencing\<close>

lemma contains_iff: "contains t u \<longleftrightarrow> (\<exists>a b. t = a @ u @ b)"
proof (induction t)
  case Nil
  then show ?case by auto
next
  case (Cons c t)
  show ?case
  proof
    assume "contains (c # t) u"
    then consider "prefix u (c # t)" | "contains t u" by auto
    then show "\<exists>a b. c # t = a @ u @ b"
    proof cases
      case 1
      then obtain b where "c # t = u @ b" by (auto simp: prefix_def)
      then have "c # t = [] @ u @ b" by simp
      then show ?thesis by blast
    next
      case 2
      with Cons.IH obtain a b where "t = a @ u @ b" by blast
      then have "c # t = (c # a) @ u @ b" by simp
      then show ?thesis by blast
    qed
  next
    assume "\<exists>a b. c # t = a @ u @ b"
    then obtain a b where ab: "c # t = a @ u @ b" by blast
    show "contains (c # t) u"
    proof (cases a)
      case Nil
      with ab have "prefix u (c # t)" by (simp add: prefix_def)
      then show ?thesis by simp
    next
      case (Cons d a')
      with ab have "t = a' @ u @ b" by simp
      with Cons.IH have "contains t u" by blast
      then show ?thesis by simp
    qed
  qed
qed

lemma contains_mid: "contains (a @ u @ b) u"
  by (auto simp: contains_iff)

lemma is_fileE: "is_file s p \<Longrightarrow> \<exists>c. nodes s p = Some (File c)"
  by (auto simp: is_file_def split: option.splits node.splits)

lemma is_file_write_text: "is_file s q \<Longrightarrow> is_file (write_text p t s) q"
  by (simp add: is_file_def write_text_def)

lemma ensure_line_in_file_ok:
  assumes "is_file s p"
  shows "\<exists>s'. ensure_line_in_file p line re s = (None, s') \<and> (\<forall>q. is_file s q \<longrightarrow> is_file s' q)"
proof -
  from assms obtain c where "nodes s p = Some (File c)" by (auto dest: is_fileE)
  then show ?thesis
    by (auto simp: ensure_line_in_file_def read_text_def is_file_write_text split: option.splits)
qed

lemma set_defconfig_symbol_ok:
  assumes "is_file s p"
  shows "\<exists>s'. set_defconfig_symbol p sy v s = (None, s') \<and> (\<forall>q. is_file s q \<longrightarrow> is_file s' q)"
proof -
  from assms obtain c where "nodes s p = Some (File c)" by (auto dest: is_fileE)
  then show ?thesis
    by (auto simp: set_defconfig_symbol_def read_text_def is_file_write_text)
qed

section \<open>The Patch Applier and the ways it fails\<close>

lemma patch_failure_message_contains:
  "contains (patch_failure_message pf out err) (path_str pf)"
  "contains (patch_failure_message pf out err) out"
  "contains (patch_failure_message pf out err) err"
proof -
  have "patch_failure_message pf out err
      = (''Failed to apply build-fixes patch.'' @ [NL] @ ''patch: '') @ path_str pf
        @ ([NL] @ ''stdout:'' @ [NL] @ out @ [NL] @ ''stderr:'' @ [NL] @ err @ [NL])"
    by (simp add: patch_failure_message_def)
  then show "contains (patch_failure_message pf out err) (path_str pf)"
    using contains_mid by metis
  have "patch_failure_message pf out err
      = (''Failed to apply build-fixes patch.'' @ [NL] @ ''patch: '' @ path_str pf
        @ [NL] @ ''stdout:'' @ [NL]) @ out @ ([NL] @ ''stderr:'' @ [NL] @ err @ [NL])"
    by (simp add: patch_failure_message_def)
  then show "contains (patch_failure_message pf out err) out"
    using contains_mid by metis
  have "patch_failure_message pf out err
      = (''Failed to apply build-fixes patch.'' @ [NL] @ ''patch: '' @ path_str pf
        @ [NL] @ ''stdout:'' @ [NL] @ out @ [NL] @ ''stderr:'' @ [NL]) @ err @ [NL]"
    by (simp add: patch_failure_message_def)
  then show "contains (patch_failure_message pf out err) err"
    using contains_mid by metis
qed

text \<open>
  C6, as amended. When the patch file does not exist, \<^verbatim>\<open>apply_optional_patch\<close> returns
  with the file system unchanged. When it exists, the kernel directory is a directory and
  \<^verbatim>\<open>git apply\<close> runs to its end, the call returns without error on the return code 0, and
  on any other return code it raises a \<^verbatim>\<open>SystemExit\<close> whose message contains the path
  of the patch file, the captured standard output and the captured standard error. That
  is the only way to the diagnostic: when the kernel directory is missing or is a regular
  file, or when \<^verbatim>\<open>subprocess.run\<close> itself raises (no \<^verbatim>\<open>git\<close> executable, output that does
  not decode), the exception of the operating system or of \<^verbatim>\<open>subprocess.run\<close> leaves
  the call as it is, with no such message.
\<close>

theorem apply_optional_patch_diagnostic_iff:
  "(nodes s pf = None \<longrightarrow> apply_optional_patch git k pf s = (None, s))
   \<and> (nodes s pf \<noteq> None \<and> nodes s k = Some Dir \<and> git k pf s = (Completed rc out err, s')
        \<longrightarrow> (rc = 0 \<longrightarrow> apply_optional_patch git k pf s = (None, s'))
          \<and> (rc \<noteq> 0 \<longrightarrow>
               (\<exists>msg. apply_optional_patch git k pf s = (Some (SystemExit msg), s')
                  \<and> contains msg (path_str pf) \<and> contains msg out \<and> contains msg err)))
   \<and> (nodes s pf \<noteq> None \<and> nodes s k = Some Dir \<and> git k pf s = (Failed description, s')
        \<longrightarrow> apply_optional_patch git k pf s = (Some (SubprocessError description), s'))
   \<and> (nodes s pf \<noteq> None \<and> nodes s k = None
        \<longrightarrow> apply_optional_patch git k pf s = (Some (FileNotFoundError k), s))
   \<and> (nodes s pf \<noteq> None \<and> is_file s k
        \<longrightarrow> apply_optional_patch git k pf s = (Some (NotADirectoryError k), s))
   \<and> ((\<exists>msg. fst (apply_optional_patch git k pf s) = Some (SystemExit msg))
        \<longleftrightarrow> nodes s pf \<noteq> None \<and> nodes s k = Some Dir
            \<and> (\<exists>rc out err. fst (git k pf s) = Completed rc out err \<and> rc \<noteq> 0))"
proof (intro conjI impI)
  assume "nodes s pf = None"
  then show "apply_optional_patch git k pf s = (None, s)"
    by (auto simp: apply_optional_patch_def)
next
  assume "nodes s pf \<noteq> None \<and> nodes s k = Some Dir \<and> git k pf s = (Completed rc out err, s')"
    and "rc = 0"
  then show "apply_optional_patch git k pf s = (None, s')"
    by (auto simp: apply_optional_patch_def)
next
  assume "nodes s pf \<noteq> None \<and> nodes s k = Some Dir \<and> git k pf s = (Completed rc out err, s')"
    and "rc \<noteq> 0"
  then have "apply_optional_patch git k pf s
               = (Some (SystemExit (patch_failure_message pf out err)), s')"
    by (auto simp: apply_optional_patch_def)
  then show "\<exists>msg. apply_optional_patch git k pf s = (Some (SystemExit msg), s')
                  \<and> contains msg (path_str pf) \<and> contains msg out \<and> contains msg err"
    using patch_failure_message_contains [of pf out err] by blast
next
  assume "nodes s pf \<noteq> None \<and> nodes s k = Some Dir \<and> git k pf s = (Failed description, s')"
  then show "apply_optional_patch git k pf s = (Some (SubprocessError description), s')"
    by (auto simp: apply_optional_patch_def)
next
  assume "nodes s pf \<noteq> None \<and> nodes s k = None"
  then show "apply_optional_patch git k pf s = (Some (FileNotFoundError k), s)"
    by (auto simp: apply_optional_patch_def)
next
  assume "nodes s pf \<noteq> None \<and> is_file s k"
  then show "apply_optional_patch git k pf s = (Some (NotADirectoryError k), s)"
    by (auto simp: apply_optional_patch_def dest: is_fileE)
next
  show "(\<exists>msg. fst (apply_optional_patch git k pf s) = Some (SystemExit msg))
        \<longleftrightarrow> nodes s pf \<noteq> None \<and> nodes s k = Some Dir
            \<and> (\<exists>rc out err. fst (git k pf s) = Completed rc out err \<and> rc \<noteq> 0)"
    by (auto simp: apply_optional_patch_def
        split: prod.splits option.splits node.splits run_outcome.splits if_splits)
qed

theorem apply_optional_patch_diagnostic_iff_witness:
  "(\<exists>msg. apply_optional_patch failing_git [''k''] (patch_path [''b'']) patch_state
            = (Some (SystemExit msg), patch_state)
          \<and> contains msg ''/b/patches/rmx3265_build_fixes.patch''
          \<and> contains msg ''checking'' \<and> contains msg ''error: patch failed'')
   \<and> apply_optional_patch passing_git [''k''] (patch_path [''b'']) patch_state
       = (None, patch_state)
   \<and> apply_optional_patch missing_git [''k''] (patch_path [''b'']) patch_state
       = (Some (SubprocessError ''No such file or directory: git''), patch_state)
   \<and> apply_optional_patch failing_git [''k''] (patch_path [''b'']) no_kernel_state
       = (Some (FileNotFoundError [''k'']), no_kernel_state)
   \<and> apply_optional_patch failing_git (patch_path [''b'']) (patch_path [''b'']) patch_state
       = (Some (NotADirectoryError (patch_path [''b''])), patch_state)
   \<and> apply_optional_patch failing_git [''k''] (patch_path [''b'']) tree_state
       = (None, tree_state)
   \<and> (\<exists>msg. fst (apply_optional_patch failing_git [''k''] (patch_path [''b'']) patch_state)
              = Some (SystemExit msg))"
proof -
  have 1: "nodes patch_state (patch_path [''b'']) \<noteq> None \<and> nodes patch_state [''k''] = Some Dir
           \<and> failing_git [''k''] (patch_path [''b'']) patch_state
               = (Completed 1 ''checking'' ''error: patch failed'', patch_state)"
    by (simp add: patch_state_def patch_path_def failing_git_def)
  have 2: "nodes patch_state (patch_path [''b'']) \<noteq> None \<and> nodes patch_state [''k''] = Some Dir
           \<and> passing_git [''k''] (patch_path [''b'']) patch_state
               = (Completed 0 [] [], patch_state)"
    by (simp add: patch_state_def patch_path_def passing_git_def)
  have 3: "nodes patch_state (patch_path [''b'']) \<noteq> None \<and> nodes patch_state [''k''] = Some Dir
           \<and> missing_git [''k''] (patch_path [''b'']) patch_state
               = (Failed ''No such file or directory: git'', patch_state)"
    by (simp add: patch_state_def patch_path_def missing_git_def)
  have 4: "nodes no_kernel_state (patch_path [''b'']) \<noteq> None \<and> nodes no_kernel_state [''k''] = None"
    by (simp add: no_kernel_state_def patch_path_def)
  have 5: "nodes patch_state (patch_path [''b'']) \<noteq> None \<and> is_file patch_state (patch_path [''b''])"
    by (simp add: patch_state_def patch_path_def is_file_def)
  have 6: "nodes tree_state (patch_path [''b'']) = None"
    by (simp add: tree_state_def tree_nodes_def patch_path_def)
  have 7: "nodes patch_state (patch_path [''b'']) \<noteq> None \<and> nodes patch_state [''k''] = Some Dir
           \<and> (\<exists>rc out err. fst (failing_git [''k''] (patch_path [''b'']) patch_state)
                              = Completed rc out err \<and> rc \<noteq> 0)"
    by (simp add: patch_state_def patch_path_def failing_git_def)
  have p: "path_str (patch_path [''b'']) = ''/b/patches/rmx3265_build_fixes.patch''"
    by (simp add: path_str_def patch_path_def)
  have a: "\<exists>msg. apply_optional_patch failing_git [''k''] (patch_path [''b'']) patch_state
            = (Some (SystemExit msg), patch_state)
          \<and> contains msg ''/b/patches/rmx3265_build_fixes.patch''
          \<and> contains msg ''checking'' \<and> contains msg ''error: patch failed''"
    using apply_optional_patch_diagnostic_iff [of patch_state "patch_path [''b'']" failing_git
        "[''k'']" 1 "''checking''" "''error: patch failed''" patch_state] 1 p
    by simp
  have b: "apply_optional_patch passing_git [''k''] (patch_path [''b'']) patch_state
       = (None, patch_state)"
    using apply_optional_patch_diagnostic_iff [of patch_state "patch_path [''b'']" passing_git
        "[''k'']" 0 "[]" "[]" patch_state] 2
    by simp
  have c: "apply_optional_patch missing_git [''k''] (patch_path [''b'']) patch_state
       = (Some (SubprocessError ''No such file or directory: git''), patch_state)"
    using apply_optional_patch_diagnostic_iff [of patch_state "patch_path [''b'']" missing_git
        "[''k'']" _ _ _ patch_state "''No such file or directory: git''"] 3
    by simp
  have d: "apply_optional_patch failing_git [''k''] (patch_path [''b'']) no_kernel_state
       = (Some (FileNotFoundError [''k'']), no_kernel_state)"
    using apply_optional_patch_diagnostic_iff [of no_kernel_state "patch_path [''b'']" failing_git
        "[''k'']"] 4
    by simp
  have e: "apply_optional_patch failing_git (patch_path [''b'']) (patch_path [''b'']) patch_state
       = (Some (NotADirectoryError (patch_path [''b''])), patch_state)"
    using apply_optional_patch_diagnostic_iff [of patch_state "patch_path [''b'']" failing_git
        "patch_path [''b'']"] 5
    by simp
  have f: "apply_optional_patch failing_git [''k''] (patch_path [''b'']) tree_state
       = (None, tree_state)"
    using apply_optional_patch_diagnostic_iff [of tree_state "patch_path [''b'']" failing_git
        "[''k'']"] 6
    by simp
  have g: "\<exists>msg. fst (apply_optional_patch failing_git [''k''] (patch_path [''b'']) patch_state)
              = Some (SystemExit msg)"
    using apply_optional_patch_diagnostic_iff [of patch_state "patch_path [''b'']" failing_git
        "[''k'']"] 7
    by blast
  from a b c d e f g show ?thesis by blast
qed

text \<open>
  The claim as stated fails: in \<open>no_kernel_state\<close> the patch file exists and the kernel
  directory does not, and the call ends with the \<^verbatim>\<open>FileNotFoundError\<close> of the working
  directory; where \<^verbatim>\<open>git\<close> cannot be started it ends with the exception of
  \<^verbatim>\<open>subprocess.run\<close>. Neither is the diagnostic with the path of the patch file and the
  captured output.
\<close>

theorem apply_optional_patch_no_diagnostic_counterexample:
  "nodes no_kernel_state (patch_path [''b'']) = Some (File ''diff'')
   \<and> apply_optional_patch failing_git [''k''] (patch_path [''b'']) no_kernel_state
       = (Some (FileNotFoundError [''k'']), no_kernel_state)
   \<and> nodes patch_state (patch_path [''b'']) = Some (File ''diff'')
   \<and> apply_optional_patch missing_git [''k''] (patch_path [''b'']) patch_state
       = (Some (SubprocessError ''No such file or directory: git''), patch_state)"
  by (simp add: apply_optional_patch_def no_kernel_state_def patch_state_def patch_path_def
      missing_git_def)

section \<open>The Source Tree Copier replaces the destination\<close>

lemma universal_newlines_no_cr: "CR \<notin> set (universal_newlines c)"
  by (induction c rule: universal_newlines.induct) auto

lemma universal_newlines_id: "CR \<notin> set t \<Longrightarrow> universal_newlines t = t"
  by (induction t rule: universal_newlines.induct) auto

lemma universal_newlines_eq_iff: "universal_newlines c = c \<longleftrightarrow> CR \<notin> set c"
  using universal_newlines_no_cr [of c] universal_newlines_id [of c] by auto

lemma prefix_append_cases: "prefix d (a @ q) \<Longrightarrow> prefix d a \<or> prefix a d"
  by (metis prefix_append prefix_def)

lemma rmtree_result:
  "rmtree d s = (None, s') \<Longrightarrow>
     nodes s d = Some Dir \<and> nodes s' = (\<lambda>p. if prefix d p then None else nodes s p)
     \<and> raw s' = (\<lambda>p. if prefix d p then None else raw s p)
     \<and> writes s' = writes s \<and> stdout s' = stdout s"
  by (auto simp: rmtree_def split: option.splits node.splits)

lemma copytree_result:
  "copytree a d s = (None, s') \<Longrightarrow>
     nodes s a = Some Dir \<and> nodes s d = None \<and> \<not> prefix a d
     \<and> nodes s' = (\<lambda>p. if prefix d p then nodes s (a @ drop (length d) p)
                        else if prefix p d then Some Dir else nodes s p)
     \<and> raw s' = (\<lambda>p. if prefix d p then raw s (a @ drop (length d) p) else raw s p)
     \<and> writes s' = writes s \<and> stdout s' = stdout s"
  by (auto simp: copytree_def split: option.splits node.splits if_splits)

lemma normalize_kconfig_result:
  "normalize_kconfig kc s = (None, s') \<Longrightarrow>
     nodes s kc \<noteq> Some Dir
     \<and> (\<forall>p. nodes s' p = (if p = kc then map_option normalized_node (nodes s p) else nodes s p))"
  by (auto simp: normalize_kconfig_def read_text_def write_text_def
      split: option.splits node.splits if_splits)

lemma normalize_kconfig_raw:
  "normalize_kconfig kc s = (None, s') \<Longrightarrow>
     (\<forall>p. raw s' p = (if p = kc \<and> nodes s kc \<noteq> None then None else raw s p))"
  by (auto simp: normalize_kconfig_def read_text_def write_text_def
      split: option.splits node.splits if_splits)

lemma copy_kernelsu_sources_result:
  assumes "copy_kernelsu_sources ksu k s = (None, s')"
  shows "\<forall>q. nodes s' (ksu_dst k @ q) = mirrored q (nodes s (ksu_src ksu @ q))"
proof -
  let ?a = "ksu_src ksu" and ?d = "ksu_dst k"
  from assms have src: "nodes s ?a = Some Dir"
    by (auto simp: copy_kernelsu_sources_def split: if_splits)
  from assms obtain s1 s2 where
    1: "remove_existing ?d s = (None, s1)"
    and 2: "copytree ?a ?d s1 = (None, s2)"
    and 3: "normalize_kconfig (?d @ [''Kconfig'']) s2 = (None, s')"
    using src by (auto simp: copy_kernelsu_sources_def and_then_def split: prod.splits option.splits)
  from copytree_result [OF 2] have np: "\<not> prefix ?a ?d" and a1: "nodes s1 ?a = Some Dir"
    and n2: "nodes s2 = (\<lambda>p. if prefix ?d p then nodes s1 (?a @ drop (length ?d) p)
                        else if prefix p ?d then Some Dir else nodes s1 p)"
    by auto
  have n1: "nodes s1 (?a @ q) = nodes s (?a @ q)" for q
  proof (cases "nodes s ?d \<noteq> None")
    case True
    with 1 have r: "rmtree ?d s = (None, s1)" by (simp add: remove_existing_def)
    from rmtree_result [OF r] have e: "nodes s1 = (\<lambda>p. if prefix ?d p then None else nodes s p)"
      by simp
    with a1 have "\<not> prefix ?d ?a" by (auto split: if_splits)
    with np have "\<not> prefix ?d (?a @ q)" using prefix_append_cases by blast
    with e show ?thesis by simp
  next
    case False
    with 1 show ?thesis by (simp add: remove_existing_def)
  qed
  have m2: "nodes s2 (?d @ q) = nodes s (?a @ q)" for q
    by (simp add: n2 n1)
  from normalize_kconfig_result [OF 3] have
    "nodes s' (?d @ q) = (if ?d @ q = ?d @ [''Kconfig''] then map_option normalized_node (nodes s2 (?d @ q)) else nodes s2 (?d @ q))" for q
    by blast
  then show ?thesis by (simp add: m2 mirrored_def)
qed

lemma copy_kernelsu_sources_raw:
  assumes "copy_kernelsu_sources ksu k s = (None, s')"
  shows "\<forall>q. raw s' (ksu_dst k @ q)
               = (if q = [''Kconfig''] \<and> nodes s (ksu_src ksu @ q) \<noteq> None then None
                  else raw s (ksu_src ksu @ q))"
proof -
  let ?a = "ksu_src ksu" and ?d = "ksu_dst k"
  from assms have src: "nodes s ?a = Some Dir"
    by (auto simp: copy_kernelsu_sources_def split: if_splits)
  from assms obtain s1 s2 where
    1: "remove_existing ?d s = (None, s1)"
    and 2: "copytree ?a ?d s1 = (None, s2)"
    and 3: "normalize_kconfig (?d @ [''Kconfig'']) s2 = (None, s')"
    using src by (auto simp: copy_kernelsu_sources_def and_then_def split: prod.splits option.splits)
  from copytree_result [OF 2] have np: "\<not> prefix ?a ?d" and a1: "nodes s1 ?a = Some Dir"
    and n2: "nodes s2 = (\<lambda>p. if prefix ?d p then nodes s1 (?a @ drop (length ?d) p)
                        else if prefix p ?d then Some Dir else nodes s1 p)"
    and r2: "raw s2 = (\<lambda>p. if prefix ?d p then raw s1 (?a @ drop (length ?d) p) else raw s1 p)"
    by auto
  have n1: "nodes s1 (?a @ q) = nodes s (?a @ q) \<and> raw s1 (?a @ q) = raw s (?a @ q)" for q
  proof (cases "nodes s ?d \<noteq> None")
    case True
    with 1 have r: "rmtree ?d s = (None, s1)" by (simp add: remove_existing_def)
    from rmtree_result [OF r] have e: "nodes s1 = (\<lambda>p. if prefix ?d p then None else nodes s p)"
      and f: "raw s1 = (\<lambda>p. if prefix ?d p then None else raw s p)"
      by simp_all
    from e a1 have "\<not> prefix ?d ?a" by (auto split: if_splits)
    with np have "\<not> prefix ?d (?a @ q)" using prefix_append_cases by blast
    with e f show ?thesis by simp
  next
    case False
    with 1 show ?thesis by (simp add: remove_existing_def)
  qed
  have m2: "nodes s2 (?d @ q) = nodes s (?a @ q)" "raw s2 (?d @ q) = raw s (?a @ q)" for q
    by (simp_all add: n2 r2 n1)
  from normalize_kconfig_raw [OF 3] have
    "raw s' (?d @ q) = (if ?d @ q = ?d @ [''Kconfig''] \<and> nodes s2 (?d @ [''Kconfig'']) \<noteq> None
                        then None else raw s2 (?d @ q))" for q
    by blast
  then show ?thesis by (auto simp: m2)
qed

lemma copy_kernelsu_sources_succeeds:
  assumes src: "nodes s (ksu_src ksu) = Some Dir"
    and dst: "nodes s (ksu_dst k) = None \<or> nodes s (ksu_dst k) = Some Dir"
    and disj: "\<not> prefix (ksu_src ksu) (ksu_dst k)" "\<not> prefix (ksu_dst k) (ksu_src ksu)"
    and par: "list_all (\<lambda>q. q = ksu_dst k \<or> \<not> is_file s q) (prefixes (ksu_dst k))"
    and kc: "nodes s (ksu_src ksu @ [''Kconfig'']) \<noteq> Some Dir"
  shows "\<exists>s'. copy_kernelsu_sources ksu k s = (None, s')"
proof -
  let ?a = "ksu_src ksu" and ?d = "ksu_dst k"
  define s1 where "s1 = (if nodes s ?d \<noteq> None
      then s\<lparr>nodes := (\<lambda>p. if prefix ?d p then None else nodes s p),
             raw := (\<lambda>p. if prefix ?d p then None else raw s p)\<rparr>
      else s)"
  have 1: "remove_existing ?d s = (None, s1)"
    using dst by (auto simp: s1_def rmtree_def remove_existing_def)
  have keep: "\<not> prefix ?d p \<Longrightarrow> nodes s1 p = nodes s p" for p
    by (simp add: s1_def)
  have d1: "nodes s1 ?d = None" using dst by (auto simp: s1_def)
  have a1: "nodes s1 ?a = Some Dir" using src disj keep by simp
  have par1: "\<not> list_ex (\<lambda>q. q \<noteq> ?d \<and> is_file s1 q) (prefixes ?d)"
  proof
    assume "list_ex (\<lambda>q. q \<noteq> ?d \<and> is_file s1 q) (prefixes ?d)"
    then obtain q where q: "prefix q ?d" "q \<noteq> ?d" and f: "is_file s1 q"
      by (auto simp: list_ex_iff)
    from q have "\<not> prefix ?d q" by (auto simp: prefix_order.antisym)
    then have "nodes s1 q = nodes s q" by (rule keep)
    with f have "is_file s q" by (simp add: is_file_def)
    with par q show False by (auto simp: list_all_iff)
  qed
  obtain s2 where 2: "copytree ?a ?d s1 = (None, s2)"
    and n2: "nodes s2 = (\<lambda>p. if prefix ?d p then nodes s1 (?a @ drop (length ?d) p)
                        else if prefix p ?d then Some Dir else nodes s1 p)"
    using a1 d1 par1 disj by (simp add: copytree_def)
  have "\<not> prefix ?d (?a @ [''Kconfig''])" using disj prefix_append_cases by blast
  then have "nodes s2 (?d @ [''Kconfig'']) = nodes s (?a @ [''Kconfig''])"
    by (simp add: n2 keep)
  with kc have "nodes s2 (?d @ [''Kconfig'']) \<noteq> Some Dir" by simp
  then have "\<exists>s3. normalize_kconfig (?d @ [''Kconfig'']) s2 = (None, s3)"
    by (cases "nodes s2 (?d @ [''Kconfig''])")
      (auto simp: normalize_kconfig_def read_text_def split: node.splits)
  then obtain s3 where 3: "normalize_kconfig (?d @ [''Kconfig'']) s2 = (None, s3)" ..
  show ?thesis
    using src by (simp add: copy_kernelsu_sources_def and_then_def 1 2 3)
qed

text \<open>
  C7, as amended. Let the source \<^verbatim>\<open>kernel\<close> directory exist, the destination be absent
  or a directory, neither lie inside the other, no parent of the destination be a
  regular file and the source \<^verbatim>\<open>Kconfig\<close> not be a directory. Then
  \<^verbatim>\<open>copy_kernelsu_sources\<close> succeeds and every path below the destination other than the
  top-level \<^verbatim>\<open>Kconfig\<close> holds what the same path below the source holds, text and bytes,
  so nothing that the source lacks survives. The top-level \<^verbatim>\<open>Kconfig\<close> is read and
  written back: its text is the text of the source with the line endings normalised to
  \<^verbatim>\<open>\n\<close>, and its bytes are the encoding of that text, so bytes of the source that do
  not decode are replaced. It equals the source \<^verbatim>\<open>Kconfig\<close> exactly when the source has
  no carriage return and no byte that does not decode. When the source \<^verbatim>\<open>kernel\<close>
  directory does not exist the call stops with a \<^verbatim>\<open>SystemExit\<close> that names its path and
  changes nothing.
\<close>

theorem copy_kernelsu_sources_mirror:
  "(nodes s (ksu_src ksu) = Some Dir
      \<and> (nodes s (ksu_dst k) = None \<or> nodes s (ksu_dst k) = Some Dir)
      \<and> \<not> prefix (ksu_src ksu) (ksu_dst k) \<and> \<not> prefix (ksu_dst k) (ksu_src ksu)
      \<and> list_all (\<lambda>q. q = ksu_dst k \<or> \<not> is_file s q) (prefixes (ksu_dst k))
      \<and> nodes s (ksu_src ksu @ [''Kconfig'']) \<noteq> Some Dir
    \<longrightarrow> (\<exists>s'. copy_kernelsu_sources ksu k s = (None, s')
           \<and> (\<forall>q. q \<noteq> [''Kconfig''] \<longrightarrow>
                  nodes s' (ksu_dst k @ q) = nodes s (ksu_src ksu @ q)
                  \<and> raw s' (ksu_dst k @ q) = raw s (ksu_src ksu @ q))
           \<and> (\<forall>q. nodes s (ksu_src ksu @ q) = None \<longrightarrow> nodes s' (ksu_dst k @ q) = None)
           \<and> nodes s' (ksu_dst k @ [''Kconfig''])
               = map_option normalized_node (nodes s (ksu_src ksu @ [''Kconfig'']))
           \<and> (nodes s (ksu_src ksu @ [''Kconfig'']) \<noteq> None \<longrightarrow>
                  raw s' (ksu_dst k @ [''Kconfig'']) = None)
           \<and> (\<forall>c. nodes s (ksu_src ksu @ [''Kconfig'']) = Some (File c) \<longrightarrow>
                  (nodes s' (ksu_dst k @ [''Kconfig'']) = nodes s (ksu_src ksu @ [''Kconfig''])
                   \<and> raw s' (ksu_dst k @ [''Kconfig'']) = raw s (ksu_src ksu @ [''Kconfig''])
                  \<longleftrightarrow> CR \<notin> set c \<and> raw s (ksu_src ksu @ [''Kconfig'']) = None))))
   \<and> (nodes s (ksu_src ksu) \<noteq> Some Dir
    \<longrightarrow> copy_kernelsu_sources ksu k s
          = (Some (SystemExit (''KernelSU sources not found at: '' @ path_str (ksu_src ksu))), s))"
proof (intro conjI impI)
  assume h: "nodes s (ksu_src ksu) = Some Dir
      \<and> (nodes s (ksu_dst k) = None \<or> nodes s (ksu_dst k) = Some Dir)
      \<and> \<not> prefix (ksu_src ksu) (ksu_dst k) \<and> \<not> prefix (ksu_dst k) (ksu_src ksu)
      \<and> list_all (\<lambda>q. q = ksu_dst k \<or> \<not> is_file s q) (prefixes (ksu_dst k))
      \<and> nodes s (ksu_src ksu @ [''Kconfig'']) \<noteq> Some Dir"
  then obtain s' where c: "copy_kernelsu_sources ksu k s = (None, s')"
    using copy_kernelsu_sources_succeeds [of s ksu k] by blast
  let ?sk = "ksu_src ksu @ [''Kconfig'']" and ?dk = "ksu_dst k @ [''Kconfig'']"
  from copy_kernelsu_sources_result [OF c]
  have m: "\<forall>q. nodes s' (ksu_dst k @ q) = mirrored q (nodes s (ksu_src ksu @ q))" .
  from copy_kernelsu_sources_raw [OF c]
  have r: "\<forall>q. raw s' (ksu_dst k @ q)
               = (if q = [''Kconfig''] \<and> nodes s (ksu_src ksu @ q) \<noteq> None then None
                  else raw s (ksu_src ksu @ q))" .
  have 1: "\<forall>q. q \<noteq> [''Kconfig''] \<longrightarrow>
                  nodes s' (ksu_dst k @ q) = nodes s (ksu_src ksu @ q)
                  \<and> raw s' (ksu_dst k @ q) = raw s (ksu_src ksu @ q)"
    using m r by (simp add: mirrored_def)
  have 2: "\<forall>q. nodes s (ksu_src ksu @ q) = None \<longrightarrow> nodes s' (ksu_dst k @ q) = None"
    using m by (simp add: mirrored_def)
  have 3: "nodes s' ?dk = map_option normalized_node (nodes s ?sk)"
    using m by (simp add: mirrored_def)
  have 4: "nodes s ?sk \<noteq> None \<longrightarrow> raw s' ?dk = None"
    using r by simp
  have 5: "\<forall>c. nodes s ?sk = Some (File c) \<longrightarrow>
                  (nodes s' ?dk = nodes s ?sk \<and> raw s' ?dk = raw s ?sk
                  \<longleftrightarrow> CR \<notin> set c \<and> raw s ?sk = None)"
  proof (intro allI impI)
    fix c assume f: "nodes s ?sk = Some (File c)"
    then have "nodes s' ?dk = Some (File (universal_newlines c))" and "raw s' ?dk = None"
      using 3 4 by simp_all
    with f show "nodes s' ?dk = nodes s ?sk \<and> raw s' ?dk = raw s ?sk
                  \<longleftrightarrow> CR \<notin> set c \<and> raw s ?sk = None"
      using universal_newlines_eq_iff [of c] by auto
  qed
  from c 1 2 3 4 5 show "\<exists>s'. copy_kernelsu_sources ksu k s = (None, s')
           \<and> (\<forall>q. q \<noteq> [''Kconfig''] \<longrightarrow>
                  nodes s' (ksu_dst k @ q) = nodes s (ksu_src ksu @ q)
                  \<and> raw s' (ksu_dst k @ q) = raw s (ksu_src ksu @ q))
           \<and> (\<forall>q. nodes s (ksu_src ksu @ q) = None \<longrightarrow> nodes s' (ksu_dst k @ q) = None)
           \<and> nodes s' (ksu_dst k @ [''Kconfig''])
               = map_option normalized_node (nodes s (ksu_src ksu @ [''Kconfig'']))
           \<and> (nodes s (ksu_src ksu @ [''Kconfig'']) \<noteq> None \<longrightarrow>
                  raw s' (ksu_dst k @ [''Kconfig'']) = None)
           \<and> (\<forall>c. nodes s (ksu_src ksu @ [''Kconfig'']) = Some (File c) \<longrightarrow>
                  (nodes s' (ksu_dst k @ [''Kconfig'']) = nodes s (ksu_src ksu @ [''Kconfig''])
                   \<and> raw s' (ksu_dst k @ [''Kconfig'']) = raw s (ksu_src ksu @ [''Kconfig''])
                  \<longleftrightarrow> CR \<notin> set c \<and> raw s (ksu_src ksu @ [''Kconfig'']) = None))"
    by blast
next
  assume "nodes s (ksu_src ksu) \<noteq> Some Dir"
  then show "copy_kernelsu_sources ksu k s
          = (Some (SystemExit (''KernelSU sources not found at: '' @ path_str (ksu_src ksu))), s)"
    by (simp add: copy_kernelsu_sources_def)
qed

lemma tree_state_copy_hyps:
  "nodes tree_state (ksu_src [''ksu'']) = Some Dir
      \<and> (nodes tree_state (ksu_dst [''k'']) = None \<or> nodes tree_state (ksu_dst [''k'']) = Some Dir)
      \<and> \<not> prefix (ksu_src [''ksu'']) (ksu_dst [''k''])
      \<and> \<not> prefix (ksu_dst [''k'']) (ksu_src [''ksu''])
      \<and> list_all (\<lambda>q. q = ksu_dst [''k''] \<or> \<not> is_file tree_state q) (prefixes (ksu_dst [''k'']))
      \<and> nodes tree_state (ksu_src [''ksu''] @ [''Kconfig'']) \<noteq> Some Dir"
  by (simp add: tree_state_def tree_nodes_def ksu_src_def ksu_dst_def is_file_def)

lemma undecodable_state_copy_hyps:
  "nodes undecodable_state (ksu_src [''ksu'']) = Some Dir
      \<and> (nodes undecodable_state (ksu_dst [''k'']) = None
           \<or> nodes undecodable_state (ksu_dst [''k'']) = Some Dir)
      \<and> \<not> prefix (ksu_src [''ksu'']) (ksu_dst [''k''])
      \<and> \<not> prefix (ksu_dst [''k'']) (ksu_src [''ksu''])
      \<and> list_all (\<lambda>q. q = ksu_dst [''k''] \<or> \<not> is_file undecodable_state q)
           (prefixes (ksu_dst [''k'']))
      \<and> nodes undecodable_state (ksu_src [''ksu''] @ [''Kconfig'']) \<noteq> Some Dir"
  by (simp add: undecodable_state_def ksu_src_def ksu_dst_def is_file_def)

theorem copy_kernelsu_sources_mirror_witness:
  "(\<exists>s'. copy_kernelsu_sources [''ksu''] [''k''] tree_state = (None, s')
         \<and> nodes s' [''k'', ''drivers'', ''kernelsu'', ''stale.c''] = None
         \<and> nodes s' [''k'', ''drivers'', ''kernelsu'', ''ksu.c''] = Some (File (''int ksu;'' @ [NL]))
         \<and> nodes s' [''k'', ''drivers'', ''kernelsu'', ''Kconfig'']
             = Some (File (''config KSU'' @ [NL])))
   \<and> (\<exists>s'. copy_kernelsu_sources [''ksu''] [''k''] undecodable_state = (None, s')
         \<and> nodes s' [''k'', ''drivers'', ''kernelsu'', ''blob.bin''] = Some (File [CHR 0xFF])
         \<and> raw s' [''k'', ''drivers'', ''kernelsu'', ''blob.bin''] = Some [CHR 0xC0]
         \<and> nodes s' [''k'', ''drivers'', ''kernelsu'', ''Kconfig'']
             = Some (File (''config '' @ [CHR 0xFF, NL]))
         \<and> raw s' [''k'', ''drivers'', ''kernelsu'', ''Kconfig''] = None)
   \<and> copy_kernelsu_sources [''ksu''] [''k''] no_makefile_state
       = (Some (SystemExit ''KernelSU sources not found at: /ksu/kernel''), no_makefile_state)"
proof -
  have 2: "nodes no_makefile_state (ksu_src [''ksu'']) \<noteq> Some Dir"
    by (simp add: no_makefile_state_def)
  have a: "nodes tree_state (ksu_src [''ksu''] @ [''stale.c'']) = None"
    "nodes tree_state (ksu_src [''ksu''] @ [''ksu.c'']) = Some (File (''int ksu;'' @ [NL]))"
    "nodes tree_state (ksu_src [''ksu''] @ [''Kconfig'']) = Some (File (''config KSU'' @ [CR, NL]))"
    by (simp_all add: tree_state_def tree_nodes_def ksu_src_def)
  have b: "nodes undecodable_state (ksu_src [''ksu''] @ [''blob.bin'']) = Some (File [CHR 0xFF])"
    "raw undecodable_state (ksu_src [''ksu''] @ [''blob.bin'']) = Some [CHR 0xC0]"
    "nodes undecodable_state (ksu_src [''ksu''] @ [''Kconfig''])
       = Some (File (''config '' @ [CHR 0xFF, NL]))"
    by (simp_all add: undecodable_state_def ksu_src_def)
  from copy_kernelsu_sources_mirror [of tree_state "[''ksu'']" "[''k'']"] tree_state_copy_hyps
  obtain s' where c: "copy_kernelsu_sources [''ksu''] [''k''] tree_state = (None, s')"
    and m: "\<forall>q. q \<noteq> [''Kconfig''] \<longrightarrow>
                  nodes s' (ksu_dst [''k''] @ q) = nodes tree_state (ksu_src [''ksu''] @ q)
                  \<and> raw s' (ksu_dst [''k''] @ q) = raw tree_state (ksu_src [''ksu''] @ q)"
    and n: "\<forall>q. nodes tree_state (ksu_src [''ksu''] @ q) = None
                  \<longrightarrow> nodes s' (ksu_dst [''k''] @ q) = None"
    and kc: "nodes s' (ksu_dst [''k''] @ [''Kconfig''])
               = map_option normalized_node (nodes tree_state (ksu_src [''ksu''] @ [''Kconfig'']))"
    by blast
  have "nodes s' (ksu_dst [''k''] @ [''stale.c'']) = None"
    using n a(1) by blast
  moreover have "nodes s' (ksu_dst [''k''] @ [''ksu.c'']) = Some (File (''int ksu;'' @ [NL]))"
    using m a(2) by simp
  moreover have "nodes s' (ksu_dst [''k''] @ [''Kconfig'']) = Some (File (''config KSU'' @ [NL]))"
    using kc a(3) by simp
  ultimately have "nodes s' [''k'', ''drivers'', ''kernelsu'', ''stale.c''] = None
         \<and> nodes s' [''k'', ''drivers'', ''kernelsu'', ''ksu.c''] = Some (File (''int ksu;'' @ [NL]))
         \<and> nodes s' [''k'', ''drivers'', ''kernelsu'', ''Kconfig'']
             = Some (File (''config KSU'' @ [NL]))"
    by (simp add: ksu_dst_def)
  with c have t: "\<exists>s'. copy_kernelsu_sources [''ksu''] [''k''] tree_state = (None, s')
         \<and> nodes s' [''k'', ''drivers'', ''kernelsu'', ''stale.c''] = None
         \<and> nodes s' [''k'', ''drivers'', ''kernelsu'', ''ksu.c''] = Some (File (''int ksu;'' @ [NL]))
         \<and> nodes s' [''k'', ''drivers'', ''kernelsu'', ''Kconfig'']
             = Some (File (''config KSU'' @ [NL]))"
    by blast
  from copy_kernelsu_sources_mirror [of undecodable_state "[''ksu'']" "[''k'']"]
    undecodable_state_copy_hyps
  obtain u where cu: "copy_kernelsu_sources [''ksu''] [''k''] undecodable_state = (None, u)"
    and mu: "\<forall>q. q \<noteq> [''Kconfig''] \<longrightarrow>
                  nodes u (ksu_dst [''k''] @ q) = nodes undecodable_state (ksu_src [''ksu''] @ q)
                  \<and> raw u (ksu_dst [''k''] @ q) = raw undecodable_state (ksu_src [''ksu''] @ q)"
    and ku: "nodes u (ksu_dst [''k''] @ [''Kconfig''])
               = map_option normalized_node
                   (nodes undecodable_state (ksu_src [''ksu''] @ [''Kconfig'']))"
    and ru: "nodes undecodable_state (ksu_src [''ksu''] @ [''Kconfig'']) \<noteq> None
               \<longrightarrow> raw u (ksu_dst [''k''] @ [''Kconfig'']) = None"
    by blast
  have "nodes u (ksu_dst [''k''] @ [''blob.bin'']) = Some (File [CHR 0xFF])"
    "raw u (ksu_dst [''k''] @ [''blob.bin'']) = Some [CHR 0xC0]"
    using mu b(1,2) by simp_all
  moreover have "nodes u (ksu_dst [''k''] @ [''Kconfig'']) = Some (File (''config '' @ [CHR 0xFF, NL]))"
    using ku b(3) by simp
  moreover have "raw u (ksu_dst [''k''] @ [''Kconfig'']) = None"
    using ru b(3) by simp
  ultimately have "nodes u [''k'', ''drivers'', ''kernelsu'', ''blob.bin''] = Some (File [CHR 0xFF])
         \<and> raw u [''k'', ''drivers'', ''kernelsu'', ''blob.bin''] = Some [CHR 0xC0]
         \<and> nodes u [''k'', ''drivers'', ''kernelsu'', ''Kconfig'']
             = Some (File (''config '' @ [CHR 0xFF, NL]))
         \<and> raw u [''k'', ''drivers'', ''kernelsu'', ''Kconfig''] = None"
    by (simp add: ksu_dst_def)
  with cu have v: "\<exists>s'. copy_kernelsu_sources [''ksu''] [''k''] undecodable_state = (None, s')
         \<and> nodes s' [''k'', ''drivers'', ''kernelsu'', ''blob.bin''] = Some (File [CHR 0xFF])
         \<and> raw s' [''k'', ''drivers'', ''kernelsu'', ''blob.bin''] = Some [CHR 0xC0]
         \<and> nodes s' [''k'', ''drivers'', ''kernelsu'', ''Kconfig'']
             = Some (File (''config '' @ [CHR 0xFF, NL]))
         \<and> raw s' [''k'', ''drivers'', ''kernelsu'', ''Kconfig''] = None"
    by blast
  have w: "copy_kernelsu_sources [''ksu''] [''k''] no_makefile_state
       = (Some (SystemExit ''KernelSU sources not found at: /ksu/kernel''), no_makefile_state)"
    using copy_kernelsu_sources_mirror [of no_makefile_state "[''ksu'']" "[''k'']"] 2
    by (simp add: path_str_def ksu_src_def)
  from t v w show ?thesis by blast
qed

text \<open>
  The claim as stated fails, in two ways. The \<^verbatim>\<open>Kconfig\<close> of the module repository of
  \<open>tree_state\<close> ends its line with \<^verbatim>\<open>\r\n\<close>, and the copy in the kernel tree does not.
  The \<^verbatim>\<open>Kconfig\<close> of \<open>undecodable_state\<close> has no carriage return and holds the byte
  \<^verbatim>\<open>0xC0\<close>; the copy holds the encoding of the replacement character in its place.
\<close>

theorem copy_kernelsu_sources_mirror_counterexample:
  "fst (copy_kernelsu_sources [''ksu''] [''k''] tree_state) = None
   \<and> nodes tree_state [''ksu'', ''kernel'', ''Kconfig''] = Some (File (''config KSU'' @ [CR, NL]))
   \<and> nodes (snd (copy_kernelsu_sources [''ksu''] [''k''] tree_state))
        [''k'', ''drivers'', ''kernelsu'', ''Kconfig''] = Some (File (''config KSU'' @ [NL]))
   \<and> nodes (snd (copy_kernelsu_sources [''ksu''] [''k''] tree_state))
        [''k'', ''drivers'', ''kernelsu'', ''Kconfig'']
       \<noteq> nodes tree_state [''ksu'', ''kernel'', ''Kconfig'']
   \<and> fst (copy_kernelsu_sources [''ksu''] [''k''] undecodable_state) = None
   \<and> raw undecodable_state [''ksu'', ''kernel'', ''Kconfig''] = Some (''config '' @ [CHR 0xC0, NL])
   \<and> raw (snd (copy_kernelsu_sources [''ksu''] [''k''] undecodable_state))
        [''k'', ''drivers'', ''kernelsu'', ''Kconfig''] = None"
proof -
  obtain s' where c: "copy_kernelsu_sources [''ksu''] [''k''] tree_state = (None, s')"
    using copy_kernelsu_sources_succeeds [of tree_state "[''ksu'']" "[''k'']"] tree_state_copy_hyps
    by blast
  have a: "nodes tree_state [''ksu'', ''kernel'', ''Kconfig''] = Some (File (''config KSU'' @ [CR, NL]))"
    by (simp add: tree_state_def tree_nodes_def)
  from copy_kernelsu_sources_result [OF c]
  have "nodes s' (ksu_dst [''k''] @ [''Kconfig''])
          = mirrored [''Kconfig''] (nodes tree_state (ksu_src [''ksu''] @ [''Kconfig'']))"
    by blast
  then have "nodes s' [''k'', ''drivers'', ''kernelsu'', ''Kconfig''] = Some (File (''config KSU'' @ [NL]))"
    using a by (simp add: ksu_dst_def ksu_src_def mirrored_def)
  with c a have 1: "fst (copy_kernelsu_sources [''ksu''] [''k''] tree_state) = None
   \<and> nodes tree_state [''ksu'', ''kernel'', ''Kconfig''] = Some (File (''config KSU'' @ [CR, NL]))
   \<and> nodes (snd (copy_kernelsu_sources [''ksu''] [''k''] tree_state))
        [''k'', ''drivers'', ''kernelsu'', ''Kconfig''] = Some (File (''config KSU'' @ [NL]))
   \<and> nodes (snd (copy_kernelsu_sources [''ksu''] [''k''] tree_state))
        [''k'', ''drivers'', ''kernelsu'', ''Kconfig'']
       \<noteq> nodes tree_state [''ksu'', ''kernel'', ''Kconfig'']"
    by simp
  obtain u where cu: "copy_kernelsu_sources [''ksu''] [''k''] undecodable_state = (None, u)"
    using copy_kernelsu_sources_succeeds [of undecodable_state "[''ksu'']" "[''k'']"]
      undecodable_state_copy_hyps
    by blast
  have b: "nodes undecodable_state (ksu_src [''ksu''] @ [''Kconfig'']) \<noteq> None"
    "raw undecodable_state [''ksu'', ''kernel'', ''Kconfig''] = Some (''config '' @ [CHR 0xC0, NL])"
    by (simp_all add: undecodable_state_def ksu_src_def)
  from copy_kernelsu_sources_raw [OF cu] b(1)
  have "raw u (ksu_dst [''k''] @ [''Kconfig'']) = None"
    by simp
  then have "raw u [''k'', ''drivers'', ''kernelsu'', ''Kconfig''] = None"
    by (simp add: ksu_dst_def)
  with cu b(2) have 2: "fst (copy_kernelsu_sources [''ksu''] [''k''] undecodable_state) = None
   \<and> raw undecodable_state [''ksu'', ''kernel'', ''Kconfig''] = Some (''config '' @ [CHR 0xC0, NL])
   \<and> raw (snd (copy_kernelsu_sources [''ksu''] [''k''] undecodable_state))
        [''k'', ''drivers'', ''kernelsu'', ''Kconfig''] = None"
    by simp
  from 1 2 show ?thesis by simp
qed

section \<open>The copy comes before the check of the required files\<close>

lemma copy_keeps_required:
  assumes "copy_kernelsu_sources ksu k s = (None, s')" and "p \<in> set (required_files k)"
  shows "nodes s' p = nodes s p"
proof -
  let ?a = "ksu_src ksu" and ?d = "ksu_dst k"
  from assms(1) have src: "nodes s ?a = Some Dir"
    by (auto simp: copy_kernelsu_sources_def split: if_splits)
  from assms(1) obtain s1 s2 where
    1: "remove_existing ?d s = (None, s1)"
    and 2: "copytree ?a ?d s1 = (None, s2)"
    and 3: "normalize_kconfig (?d @ [''Kconfig'']) s2 = (None, s')"
    using src by (auto simp: copy_kernelsu_sources_def and_then_def split: prod.splits option.splits)
  have p: "\<not> prefix ?d p" "\<not> prefix p ?d" "p \<noteq> ?d @ [''Kconfig'']"
    using assms(2)
    by (auto simp: required_files_def ksu_dst_def drivers_makefile_def drivers_kconfig_def defconfig_def)
  have "nodes s1 p = nodes s p"
    using 1 p(1) by (cases "nodes s ?d \<noteq> None") (auto simp: remove_existing_def dest!: rmtree_result)
  moreover have "nodes s2 p = nodes s1 p"
    using copytree_result [OF 2] p by simp
  moreover have "nodes s' p = nodes s2 p"
    using normalize_kconfig_result [OF 3] p by simp
  ultimately show ?thesis by simp
qed

lemma patch_kernel_tree_missing:
  assumes "p \<in> set (required_files k)" and "nodes s p = None"
  shows "\<exists>q\<in>set (required_files k). nodes s q = None \<and> patch_kernel_tree k s = (Some (SystemExit (''Missing '' @ path_str q)), s)"
  using assms by (auto simp: required_files_def patch_kernel_tree_def)

lemma patch_kernel_tree_Missing_state:
  "patch_kernel_tree k s = (Some (SystemExit m), s') \<Longrightarrow> s' = s"
  apply (auto simp: patch_kernel_tree_def split: if_splits)
  apply (auto simp: and_then_def fix_dtc_makefile_def ensure_line_in_file_def set_defconfig_symbol_def read_text_def
      split: if_splits option.splits node.splits prod.splits sum.splits)
  done


subsection \<open>The required files are checked before any text is written\<close>

lemma patch_kernel_tree_ok:
  assumes mk: "is_file s (drivers_makefile k)" and kc: "is_file s (drivers_kconfig k)"
    and dc: "is_file s (defconfig k)" and dtc: "nodes s (dtc_makefile k) = None"
  shows "fst (patch_kernel_tree k s) = None"
proof -
  have ex: "nodes s (drivers_makefile k) \<noteq> None" "nodes s (drivers_kconfig k) \<noteq> None"
    "nodes s (defconfig k) \<noteq> None"
    using mk kc dc by (auto dest: is_fileE)
  have 0: "fix_dtc_makefile (dtc_makefile k) s = (None, s)"
    using dtc by (simp add: fix_dtc_makefile_def)
  obtain s1 where 1: "ensure_line_in_file (drivers_makefile k) ksu_makefile_line
                        (Some makefile_anchor) s = (None, s1)"
    and f1: "\<forall>q. is_file s q \<longrightarrow> is_file s1 q"
    using ensure_line_in_file_ok [OF mk] by blast
  obtain s2 where 2: "ensure_line_in_file (drivers_kconfig k) ksu_kconfig_line None s1 = (None, s2)"
    and f2: "\<forall>q. is_file s1 q \<longrightarrow> is_file s2 q"
    using ensure_line_in_file_ok [of s1 "drivers_kconfig k"] kc f1 by blast
  have d2: "is_file s2 (defconfig k)" using dc f1 f2 by blast
  obtain s3 where 3: "set_defconfig_symbol (defconfig k) ''KSU'' ''y'' s2 = (None, s3)"
    and f3: "\<forall>q. is_file s2 q \<longrightarrow> is_file s3 q"
    using set_defconfig_symbol_ok [OF d2] by blast
  have d3: "is_file s3 (defconfig k)" using d2 f3 by blast
  obtain s4 where 4: "set_defconfig_symbol (defconfig k) ''KPROBES'' ''y'' s3 = (None, s4)"
    and f4: "\<forall>q. is_file s3 q \<longrightarrow> is_file s4 q"
    using set_defconfig_symbol_ok [OF d3] by blast
  have d4: "is_file s4 (defconfig k)" using d3 f4 by blast
  obtain s5 where 5: "set_defconfig_symbol (defconfig k) ''KPROBE_EVENTS'' ''y'' s4 = (None, s5)"
    using set_defconfig_symbol_ok [OF d4] by blast
  show ?thesis
    using ex by (simp add: patch_kernel_tree_def and_then_def 0 1 2 3 4 5)
qed

text \<open>
  C5. When the drivers Makefile, the drivers Kconfig or the defconfig is missing,
  \<^verbatim>\<open>patch_kernel_tree\<close> stops with \<^verbatim>\<open>SystemExit("Missing <path>")\<close> for the first missing
  one of them, and the file system is the one it started from: nothing, the drivers
  Makefile included, has been written. When the three are regular files, a missing
  \<^verbatim>\<open>scripts/dtc/Makefile\<close> raises nothing. In a run of \<^verbatim>\<open>main\<close> in which the patch step
  and the copy have passed, the error names a required file that is missing and the
  drivers Makefile is as the patch step left it.
\<close>

theorem patch_kernel_tree_missing_required:
  "(nodes s (drivers_makefile k) = None \<longrightarrow>
      patch_kernel_tree k s
        = (Some (SystemExit (''Missing '' @ path_str (drivers_makefile k))), s))
   \<and> (nodes s (drivers_makefile k) \<noteq> None \<and> nodes s (drivers_kconfig k) = None \<longrightarrow>
      patch_kernel_tree k s
        = (Some (SystemExit (''Missing '' @ path_str (drivers_kconfig k))), s))
   \<and> (nodes s (drivers_makefile k) \<noteq> None \<and> nodes s (drivers_kconfig k) \<noteq> None
        \<and> nodes s (defconfig k) = None \<longrightarrow>
      patch_kernel_tree k s
        = (Some (SystemExit (''Missing '' @ path_str (defconfig k))), s))
   \<and> (is_file s (drivers_makefile k) \<and> is_file s (drivers_kconfig k)
        \<and> is_file s (defconfig k) \<and> nodes s (dtc_makefile k) = None \<longrightarrow>
      fst (patch_kernel_tree k s) = None)
   \<and> (apply_optional_patch git k (patch_path b) s0 = (None, s1)
        \<and> copy_kernelsu_sources ksu k s1 = (None, s2)
        \<and> list_ex (\<lambda>p. nodes s1 p = None) (required_files k) \<longrightarrow>
      (\<exists>p\<in>set (required_files k). nodes s2 p = None
         \<and> main git k ksu b s0 = (Some (SystemExit (''Missing '' @ path_str p)), s2))
      \<and> nodes s2 (drivers_makefile k) = nodes s1 (drivers_makefile k))"
proof -
  have "apply_optional_patch git k (patch_path b) s0 = (None, s1)
        \<and> copy_kernelsu_sources ksu k s1 = (None, s2)
        \<and> list_ex (\<lambda>p. nodes s1 p = None) (required_files k) \<longrightarrow>
      (\<exists>p\<in>set (required_files k). nodes s2 p = None
         \<and> main git k ksu b s0 = (Some (SystemExit (''Missing '' @ path_str p)), s2))
      \<and> nodes s2 (drivers_makefile k) = nodes s1 (drivers_makefile k)"
  proof (intro impI)
    assume h: "apply_optional_patch git k (patch_path b) s0 = (None, s1)
        \<and> copy_kernelsu_sources ksu k s1 = (None, s2)
        \<and> list_ex (\<lambda>p. nodes s1 p = None) (required_files k)"
    then obtain p where p: "p \<in> set (required_files k)" "nodes s1 p = None"
      by (auto simp: list_ex_iff)
    from h have c: "copy_kernelsu_sources ksu k s1 = (None, s2)" by simp
    from copy_keeps_required [OF c p(1)] p(2) have "nodes s2 p = None" by simp
    from patch_kernel_tree_missing [OF p(1) this]
    obtain q where q: "q \<in> set (required_files k)" "nodes s2 q = None"
      "patch_kernel_tree k s2 = (Some (SystemExit (''Missing '' @ path_str q)), s2)"
      by blast
    from h c q(3) have "main git k ksu b s0 = (Some (SystemExit (''Missing '' @ path_str q)), s2)"
      by (simp add: main_def and_then_def)
    with q have 1: "\<exists>p\<in>set (required_files k). nodes s2 p = None
         \<and> main git k ksu b s0 = (Some (SystemExit (''Missing '' @ path_str p)), s2)"
      by blast
    have "drivers_makefile k \<in> set (required_files k)" by (simp add: required_files_def)
    from copy_keeps_required [OF c this]
    have 2: "nodes s2 (drivers_makefile k) = nodes s1 (drivers_makefile k)" .
    from 1 2 show "(\<exists>p\<in>set (required_files k). nodes s2 p = None
         \<and> main git k ksu b s0 = (Some (SystemExit (''Missing '' @ path_str p)), s2))
      \<and> nodes s2 (drivers_makefile k) = nodes s1 (drivers_makefile k)" ..
  qed
  with patch_kernel_tree_ok [of s k] show ?thesis by (simp add: patch_kernel_tree_def)
qed

theorem patch_kernel_tree_missing_required_witness:
  "patch_kernel_tree [''k''] no_makefile_state
     = (Some (SystemExit ''Missing /k/drivers/Makefile''), no_makefile_state)
   \<and> patch_kernel_tree [''k''] no_kconfig_state
     = (Some (SystemExit ''Missing /k/drivers/Kconfig''), no_kconfig_state)
   \<and> patch_kernel_tree [''k''] tree_state
     = (Some (SystemExit ''Missing /k/arch/arm64/configs/RMX3265_defconfig''), tree_state)
   \<and> fst (patch_kernel_tree [''k''] complete_state) = None
   \<and> fst (main passing_git [''k''] [''ksu''] [''b''] tree_state)
     = Some (SystemExit ''Missing /k/arch/arm64/configs/RMX3265_defconfig'')
   \<and> nodes (snd (main passing_git [''k''] [''ksu''] [''b''] tree_state)) [''k'', ''drivers'', ''Makefile'']
     = Some (File (''obj-y += base/'' @ [NL]))"
proof -
  have 1: "nodes no_makefile_state (drivers_makefile [''k'']) = None"
    by (simp add: no_makefile_state_def)
  have 2: "nodes no_kconfig_state (drivers_makefile [''k'']) \<noteq> None
           \<and> nodes no_kconfig_state (drivers_kconfig [''k'']) = None"
    by (simp add: no_kconfig_state_def drivers_makefile_def drivers_kconfig_def)
  have 3: "nodes tree_state (drivers_makefile [''k'']) \<noteq> None
           \<and> nodes tree_state (drivers_kconfig [''k'']) \<noteq> None
           \<and> nodes tree_state (defconfig [''k'']) = None"
    by (simp add: tree_state_def tree_nodes_def drivers_makefile_def drivers_kconfig_def
        defconfig_def)
  have 4: "is_file complete_state (drivers_makefile [''k''])
           \<and> is_file complete_state (drivers_kconfig [''k''])
           \<and> is_file complete_state (defconfig [''k''])
           \<and> nodes complete_state (dtc_makefile [''k'']) = None"
    by (simp add: complete_state_def is_file_def drivers_makefile_def drivers_kconfig_def
        defconfig_def dtc_makefile_def)
  let ?s2 = "snd (copy_kernelsu_sources [''ksu''] [''k''] tree_state)"
  obtain s' where "copy_kernelsu_sources [''ksu''] [''k''] tree_state = (None, s')"
    using copy_kernelsu_sources_succeeds [of tree_state "[''ksu'']" "[''k'']"] tree_state_copy_hyps
    by blast
  then have c2: "copy_kernelsu_sources [''ksu''] [''k''] tree_state = (None, ?s2)" by simp
  have a: "apply_optional_patch passing_git [''k''] (patch_path [''b'']) tree_state = (None, tree_state)"
    by (simp add: apply_optional_patch_def patch_path_def tree_state_def tree_nodes_def)
  have r: "list_ex (\<lambda>p. nodes tree_state p = None) (required_files [''k''])"
    by (simp add: required_files_def tree_state_def tree_nodes_def drivers_makefile_def
        drivers_kconfig_def defconfig_def)
  from patch_kernel_tree_missing_required [of no_makefile_state "[''k'']" passing_git "[''b'']"
      tree_state tree_state "[''ksu'']" ?s2] a c2 r
  obtain p where p: "p \<in> set (required_files [''k''])" "nodes ?s2 p = None"
    "main passing_git [''k''] [''ksu''] [''b''] tree_state
       = (Some (SystemExit (''Missing '' @ path_str p)), ?s2)"
    and mk: "nodes ?s2 (drivers_makefile [''k'']) = nodes tree_state (drivers_makefile [''k''])"
    by blast
  have "nodes ?s2 (drivers_makefile [''k'']) \<noteq> None" "nodes ?s2 (drivers_kconfig [''k'']) \<noteq> None"
    using copy_keeps_required [OF c2] 3 by (simp_all add: required_files_def)
  with p(1,2) have "p = defconfig [''k'']" by (auto simp: required_files_def)
  with p(3) have 5: "main passing_git [''k''] [''ksu''] [''b''] tree_state
     = (Some (SystemExit ''Missing /k/arch/arm64/configs/RMX3265_defconfig''), ?s2)"
    by (simp add: path_str_def defconfig_def)
  from mk have 6: "nodes ?s2 [''k'', ''drivers'', ''Makefile''] = Some (File (''obj-y += base/'' @ [NL]))"
    by (simp add: drivers_makefile_def tree_state_def tree_nodes_def)
  have 7: "patch_kernel_tree [''k''] no_makefile_state
     = (Some (SystemExit ''Missing /k/drivers/Makefile''), no_makefile_state)
   \<and> patch_kernel_tree [''k''] no_kconfig_state
     = (Some (SystemExit ''Missing /k/drivers/Kconfig''), no_kconfig_state)
   \<and> patch_kernel_tree [''k''] tree_state
     = (Some (SystemExit ''Missing /k/arch/arm64/configs/RMX3265_defconfig''), tree_state)
   \<and> fst (patch_kernel_tree [''k''] complete_state) = None"
    using patch_kernel_tree_missing_required [of no_makefile_state "[''k'']"]
      patch_kernel_tree_missing_required [of no_kconfig_state "[''k'']"]
      patch_kernel_tree_missing_required [of tree_state "[''k'']"]
      patch_kernel_tree_missing_required [of complete_state "[''k'']"]
      1 2 3 4
    by (simp add: path_str_def drivers_makefile_def drivers_kconfig_def defconfig_def)
  from 5 6 7 show ?thesis by simp
qed

subsection \<open>The copy is not undone by the failure\<close>

text \<open>
  C10. \<^verbatim>\<open>main\<close> copies the sources before \<^verbatim>\<open>patch_kernel_tree\<close> checks the required
  files. When the patch step and the copy have passed and a required file is missing,
  \<^verbatim>\<open>main\<close> stops with \<^verbatim>\<open>SystemExit("Missing <path>")\<close> and the file system it leaves is
  the one the copy produced: the destination directory holds the copy of the source, not
  what it held before. Conversely, a run of \<^verbatim>\<open>main\<close> that ends with such an error has
  gone through the copy, and ends in the state the copy left.
\<close>

theorem main_missing_required_after_copy:
  "(apply_optional_patch git k (patch_path b) s = (None, s1)
      \<and> copy_kernelsu_sources ksu k s1 = (None, s2)
      \<and> list_ex (\<lambda>p. nodes s1 p = None) (required_files k)
    \<longrightarrow> (\<exists>p\<in>set (required_files k). nodes s2 p = None
            \<and> main git k ksu b s = (Some (SystemExit (''Missing '' @ path_str p)), s2))
        \<and> (\<forall>q. nodes s2 (ksu_dst k @ q) = mirrored q (nodes s1 (ksu_src ksu @ q))))
   \<and> (main git k ksu b s = (Some (SystemExit (''Missing '' @ x)), s')
    \<longrightarrow> (\<exists>s1. apply_optional_patch git k (patch_path b) s = (None, s1)
              \<and> copy_kernelsu_sources ksu k s1 = (None, s')))"
proof (intro conjI impI)
  assume h: "apply_optional_patch git k (patch_path b) s = (None, s1)
      \<and> copy_kernelsu_sources ksu k s1 = (None, s2)
      \<and> list_ex (\<lambda>p. nodes s1 p = None) (required_files k)"
  then obtain p where p: "p \<in> set (required_files k)" "nodes s1 p = None"
    by (auto simp: list_ex_iff)
  from h have c: "copy_kernelsu_sources ksu k s1 = (None, s2)" by simp
  from copy_keeps_required [OF c p(1)] p(2) have "nodes s2 p = None" by simp
  from patch_kernel_tree_missing [OF p(1) this]
  obtain q where q: "q \<in> set (required_files k)" "nodes s2 q = None"
    "patch_kernel_tree k s2 = (Some (SystemExit (''Missing '' @ path_str q)), s2)"
    by blast
  from h c q(3) have "main git k ksu b s = (Some (SystemExit (''Missing '' @ path_str q)), s2)"
    by (simp add: main_def and_then_def)
  with q show "\<exists>p\<in>set (required_files k). nodes s2 p = None
            \<and> main git k ksu b s = (Some (SystemExit (''Missing '' @ path_str p)), s2)"
    by blast
  from copy_kernelsu_sources_result [OF c]
  show "\<forall>q. nodes s2 (ksu_dst k @ q) = mirrored q (nodes s1 (ksu_src ksu @ q))" .
next
  assume m: "main git k ksu b s = (Some (SystemExit (''Missing '' @ x)), s')"
  obtain e1 s1 where a: "apply_optional_patch git k (patch_path b) s = (e1, s1)"
    by (cases "apply_optional_patch git k (patch_path b) s")
  have e1: "e1 = None"
  proof (cases e1)
    case (Some e)
    with a m have "e = SystemExit (''Missing '' @ x)" by (simp add: main_def and_then_def)
    with a Some show ?thesis
      by (auto simp: apply_optional_patch_def patch_failure_message_def
          split: if_splits prod.splits option.splits node.splits run_outcome.splits)
  qed simp
  obtain e2 s2 where c: "copy_kernelsu_sources ksu k s1 = (e2, s2)"
    by (cases "copy_kernelsu_sources ksu k s1")
  have e2: "e2 = None"
  proof (cases e2)
    case (Some e)
    with a e1 c m have e: "e = SystemExit (''Missing '' @ x)" by (simp add: main_def and_then_def)
    show ?thesis
    proof (cases "nodes s1 (ksu_src ksu) = Some Dir")
      case False
      with c Some e show ?thesis by (simp add: copy_kernelsu_sources_def)
    next
      case True
      with c Some e show ?thesis
        by (auto simp: copy_kernelsu_sources_def and_then_def remove_existing_def rmtree_def
            copytree_def normalize_kconfig_def read_text_def
            split: prod.splits option.splits node.splits if_splits)
    qed
  qed simp
  obtain e3 s3 where k: "patch_kernel_tree k s2 = (e3, s3)"
    by (cases "patch_kernel_tree k s2")
  from m a e1 c e2 k have "e3 = Some (SystemExit (''Missing '' @ x))" and "s3 = s'"
    by (auto simp: main_def and_then_def split: option.splits)
  with k patch_kernel_tree_Missing_state have "s' = s2" by blast
  with a e1 c e2 show "\<exists>s1. apply_optional_patch git k (patch_path b) s = (None, s1)
              \<and> copy_kernelsu_sources ksu k s1 = (None, s')"
    by blast
qed

theorem main_missing_required_after_copy_witness:
  "main passing_git [''k''] [''ksu''] [''b''] tree_state
     = (Some (SystemExit ''Missing /k/arch/arm64/configs/RMX3265_defconfig''),
        snd (copy_kernelsu_sources [''ksu''] [''k''] tree_state))
   \<and> nodes (snd (copy_kernelsu_sources [''ksu''] [''k''] tree_state))
       [''k'', ''drivers'', ''kernelsu'', ''stale.c''] = None
   \<and> nodes (snd (copy_kernelsu_sources [''ksu''] [''k''] tree_state))
       [''k'', ''drivers'', ''kernelsu'', ''ksu.c''] = Some (File (''int ksu;'' @ [NL]))
   \<and> nodes tree_state [''k'', ''drivers'', ''kernelsu'', ''stale.c'']
       = Some (File (''int old;'' @ [NL]))"
proof -
  let ?s2 = "snd (copy_kernelsu_sources [''ksu''] [''k''] tree_state)"
  obtain s' where c: "copy_kernelsu_sources [''ksu''] [''k''] tree_state = (None, s')"
    using copy_kernelsu_sources_succeeds [of tree_state "[''ksu'']" "[''k'']"] tree_state_copy_hyps
    by blast
  then have c2: "copy_kernelsu_sources [''ksu''] [''k''] tree_state = (None, ?s2)" by simp
  have a: "apply_optional_patch passing_git [''k''] (patch_path [''b'']) tree_state = (None, tree_state)"
    by (simp add: apply_optional_patch_def patch_path_def tree_state_def tree_nodes_def)
  have r: "list_ex (\<lambda>p. nodes tree_state p = None) (required_files [''k''])"
    by (simp add: required_files_def tree_state_def tree_nodes_def drivers_makefile_def
        drivers_kconfig_def defconfig_def)
  have n: "nodes tree_state (drivers_makefile [''k'']) \<noteq> None"
    "nodes tree_state (drivers_kconfig [''k'']) \<noteq> None"
    by (simp_all add: tree_state_def tree_nodes_def drivers_makefile_def drivers_kconfig_def)
  from main_missing_required_after_copy [of passing_git "[''k'']" "[''b'']" tree_state tree_state
      "[''ksu'']" ?s2] a c2 r
  obtain p where p: "p \<in> set (required_files [''k''])" "nodes ?s2 p = None"
    "main passing_git [''k''] [''ksu''] [''b''] tree_state
       = (Some (SystemExit (''Missing '' @ path_str p)), ?s2)"
    and m: "\<forall>q. nodes ?s2 (ksu_dst [''k''] @ q) = mirrored q (nodes tree_state (ksu_src [''ksu''] @ q))"
    by blast
  have "nodes ?s2 (drivers_makefile [''k'']) \<noteq> None" "nodes ?s2 (drivers_kconfig [''k'']) \<noteq> None"
    using copy_keeps_required [OF c2] n by (simp_all add: required_files_def)
  with p(1,2) have "p = defconfig [''k'']" by (auto simp: required_files_def)
  with p(3) have 1: "main passing_git [''k''] [''ksu''] [''b''] tree_state
     = (Some (SystemExit ''Missing /k/arch/arm64/configs/RMX3265_defconfig''), ?s2)"
    by (simp add: path_str_def defconfig_def)
  have "nodes ?s2 (ksu_dst [''k''] @ [''stale.c'']) = None"
    "nodes ?s2 (ksu_dst [''k''] @ [''ksu.c'']) = Some (File (''int ksu;'' @ [NL]))"
    using m by (simp_all add: mirrored_def tree_state_def tree_nodes_def ksu_src_def)
  then have 2: "nodes ?s2 [''k'', ''drivers'', ''kernelsu'', ''stale.c''] = None"
    "nodes ?s2 [''k'', ''drivers'', ''kernelsu'', ''ksu.c''] = Some (File (''int ksu;'' @ [NL]))"
    by (simp_all add: ksu_dst_def)
  have 3: "nodes tree_state [''k'', ''drivers'', ''kernelsu'', ''stale.c'']
       = Some (File (''int old;'' @ [NL]))"
    by (simp add: tree_state_def tree_nodes_def)
  from 1 2 3 show ?thesis by simp
qed

section \<open>Facts about the matcher and the search\<close>

lemma match_here_le: "match_here p b s = Some n \<Longrightarrow> n \<le> length s"
  by (induction p b s arbitrary: n rule: match_here.induct)
    (auto split: if_splits option.splits)

lemma search_from_Some:
  "search_from p b s k = Some (st, e) \<Longrightarrow>
     \<exists>j n. j \<le> length s \<and> st = k + j \<and> e = st + n
       \<and> match_here p (if j = 0 then b else s ! (j - 1) = NL) (drop j s) = Some n
       \<and> (\<forall>i<j. match_here p (if i = 0 then b else s ! (i - 1) = NL) (drop i s) = None)"
proof (induction s arbitrary: b k)
  case Nil
  then show ?case by auto
next
  case (Cons c s)
  show ?case
  proof (cases "match_here p b (c # s)")
    case (Some n)
    with Cons.prems have "st = k" "e = k + n" by auto
    with Some show ?thesis by (intro exI [of _ 0] exI [of _ n]) simp
  next
    case None
    with Cons.prems have "search_from p (c = NL) s (Suc k) = Some (st, e)" by simp
    from Cons.IH [OF this] obtain j n where j: "j \<le> length s" "st = Suc k + j" "e = st + n"
      "match_here p (if j = 0 then c = NL else s ! (j - 1) = NL) (drop j s) = Some n"
      "\<forall>i<j. match_here p (if i = 0 then c = NL else s ! (i - 1) = NL) (drop i s) = None"
      by blast
    have a: "(if Suc i = 0 then b else (c # s) ! (Suc i - 1) = NL)
              = (if i = 0 then c = NL else s ! (i - 1) = NL)" for i
      by (cases i) auto
    have "\<forall>i<Suc j. match_here p (if i = 0 then b else (c # s) ! (i - 1) = NL) (drop i (c # s)) = None"
    proof (intro allI impI)
      fix i assume "i < Suc j"
      show "match_here p (if i = 0 then b else (c # s) ! (i - 1) = NL) (drop i (c # s)) = None"
      proof (cases i)
        case 0
        with None show ?thesis by simp
      next
        case (Suc i')
        with \<open>i < Suc j\<close> have "i' < j" by simp
        with j(5) have "match_here p (if i' = 0 then c = NL else s ! (i' - 1) = NL) (drop i' s) = None"
          by blast
        with Suc a [of i'] show ?thesis by simp
      qed
    qed
    moreover have "match_here p (if Suc j = 0 then b else (c # s) ! (Suc j - 1) = NL)
                     (drop (Suc j) (c # s)) = Some n"
      using j(4) a [of j] by simp
    ultimately show ?thesis
      using j(1,2,3) by (intro exI [of _ "Suc j"] exI [of _ n]) simp
  qed
qed

lemma search_from_None:
  "search_from p b s k = None \<Longrightarrow> j \<le> length s \<Longrightarrow>
     match_here p (if j = 0 then b else s ! (j - 1) = NL) (drop j s) = None"
proof (induction s arbitrary: b k j)
  case Nil
  then show ?case by simp
next
  case (Cons c s)
  from Cons.prems(1) have h: "match_here p b (c # s) = None"
    and r: "search_from p (c = NL) s (Suc k) = None"
    by (auto split: option.splits)
  show ?case
  proof (cases j)
    case 0
    with h show ?thesis by simp
  next
    case (Suc j')
    with Cons.prems(2) have "j' \<le> length s" by simp
    from Cons.IH [OF r this] show ?thesis using Suc by (cases j') auto
  qed
qed

lemma re_search_Some:
  assumes "re_search p text = Some (st, e)"
  shows "st \<le> e \<and> e \<le> length text \<and> match_at p text st = Some (e - st)
         \<and> (\<forall>k<st. match_at p text k = None)"
proof -
  from assms have "search_from p True text 0 = Some (st, e)" by (simp add: re_search_def)
  from search_from_Some [OF this] obtain j n where j: "j \<le> length text" "st = 0 + j" "e = st + n"
      "match_here p (if j = 0 then True else text ! (j - 1) = NL) (drop j text) = Some n"
      "\<forall>i<j. match_here p (if i = 0 then True else text ! (i - 1) = NL) (drop i text) = None"
    by blast
  have eq: "(if i = 0 then True else text ! (i - 1) = NL) = (i = 0 \<or> text ! (i - 1) = NL)" for i
    by simp
  from j(2) have st: "st = j" by simp
  from j(4) have m: "match_at p text st = Some n" unfolding match_at_def st eq .
  from match_here_le [OF j(4)] j(1) have "j + n \<le> length text" by simp
  moreover from j(5) have "\<forall>k<st. match_at p text k = None" unfolding match_at_def st eq .
  ultimately show ?thesis using j(3) m st by simp
qed

lemma re_search_None:
  assumes "re_search p text = None" and "k \<le> length text"
  shows "match_at p text k = None"
proof -
  from assms(1) have n: "search_from p True text 0 = None" by (simp add: re_search_def)
  have eq: "(if k = 0 then True else text ! (k - 1) = NL) = (k = 0 \<or> text ! (k - 1) = NL)"
    by simp
  from search_from_None [OF n assms(2)] show ?thesis unfolding match_at_def eq .
qed

lemma re_search_None_iff:
  "re_search p text = None \<longleftrightarrow> (\<forall>k\<le>length text. match_at p text k = None)"
proof
  assume "re_search p text = None"
  then show "\<forall>k\<le>length text. match_at p text k = None"
    using re_search_None by blast
next
  assume a: "\<forall>k\<le>length text. match_at p text k = None"
  show "re_search p text = None"
  proof (cases "re_search p text")
    case None
    then show ?thesis .
  next
    case (Some se)
    obtain st e where se: "se = (st, e)" by (cases se)
    from Some se have r: "re_search p text = Some (st, e)" by simp
    from re_search_Some [OF r] have 1: "st \<le> e" and 2: "e \<le> length text"
      and 3: "match_at p text st = Some (e - st)" by blast+
    from 1 2 have "st \<le> length text" by simp
    with a have "match_at p text st = None" by blast
    with 3 show ?thesis by simp
  qed
qed

lemma insertion_point_eq:
  assumes "e \<le> length text"
  shows "insertion_point text e = e + length (takeWhile (\<lambda>c. c \<noteq> NL) (drop e text))"
proof (cases "e < length text \<and> text ! e \<noteq> NL")
  case True
  show ?thesis
  proof (cases "NL \<in> set (drop e text)")
    case t: True
    then have "find_nl text e = Some (e + length (takeWhile (\<lambda>c. c \<noteq> NL) (drop e text)))"
      unfolding find_nl_def by simp
    with True show ?thesis unfolding insertion_point_def by simp
  next
    case False
    then have "\<forall>x\<in>set (drop e text). x \<noteq> NL" by blast
    then have "takeWhile (\<lambda>c. c \<noteq> NL) (drop e text) = drop e text"
      by (simp only: takeWhile_eq_all_conv)
    then have "length (takeWhile (\<lambda>c. c \<noteq> NL) (drop e text)) = length (drop e text)"
      by (rule arg_cong)
    then have tw: "length (takeWhile (\<lambda>c. c \<noteq> NL) (drop e text)) = length text - e"
      by (simp only: length_drop)
    from False have "find_nl text e = None" unfolding find_nl_def by simp
    with True have "insertion_point text e = length text" unfolding insertion_point_def by simp
    with tw assms show ?thesis by arith
  qed
next
  case False
  with assms have c: "e = length text \<or> (e < length text \<and> text ! e = NL)" by auto
  have "takeWhile (\<lambda>c. c \<noteq> NL) (drop e text) = []"
  proof (cases "e = length text")
    case True
    then show ?thesis by simp
  next
    case f: False
    with c have lt: "e < length text" and nl: "text ! e = NL" by auto
    from lt have "drop e text = text ! e # drop (Suc e) text" by (rule Cons_nth_drop_Suc [symmetric])
    with nl show ?thesis by simp
  qed
  moreover from False have "insertion_point text e = e"
    unfolding insertion_point_def by (simp only: if_False)
  ultimately show ?thesis by simp
qed

section \<open>Counting the occurrences of a line\<close>

lemma count_occ_zero_iff: "count_occ t u = 0 \<longleftrightarrow> \<not> contains t u"
  by (induction t) auto

lemma prefix_over_newline:
  assumes "NL \<notin> set u"
  shows "prefix u (a @ NL # b) \<longleftrightarrow> prefix u a"
proof
  assume "prefix u (a @ NL # b)"
  then have "prefix u a \<or> (\<exists>us. u = a @ us \<and> prefix us (NL # b))"
    by (simp only: prefix_append)
  then show "prefix u a"
  proof
    assume "\<exists>us. u = a @ us \<and> prefix us (NL # b)"
    then obtain us where us: "u = a @ us" "prefix us (NL # b)" by blast
    show ?thesis
    proof (cases us)
      case Nil
      with us(1) show ?thesis by simp
    next
      case (Cons x r)
      with us(2) have "x = NL" by simp
      with Cons us(1) assms show ?thesis by simp
    qed
  qed
next
  assume "prefix u a"
  then show "prefix u (a @ NL # b)" by (rule prefix_prefix)
qed

lemma count_occ_split_newline:
  assumes "NL \<notin> set u" and "u \<noteq> []"
  shows "count_occ (a @ NL # b) u = count_occ a u + count_occ b u"
proof (induction a)
  case Nil
  from assms have "\<not> prefix u (NL # b)" by (cases u) auto
  with assms(2) show ?case by simp
next
  case (Cons c a)
  have "prefix u ((c # a) @ NL # b) \<longleftrightarrow> prefix u (c # a)"
    by (rule prefix_over_newline [OF assms(1)])
  then have "prefix u (c # a @ NL # b) \<longleftrightarrow> prefix u (c # a)" by simp
  with Cons.IH show ?case by simp
qed

lemma count_occ_self_nl:
  assumes "NL \<notin> set u" and "u \<noteq> []"
  shows "count_occ u u = 1"
proof -
  have "\<not> contains (tl u) u"
  proof
    assume "contains (tl u) u"
    then obtain a b where "tl u = a @ u @ b" by (auto simp: contains_iff)
    then have "length (tl u) = length a + length u + length b" by simp
    with assms(2) show False by (cases u) auto
  qed
  then have "count_occ (tl u) u = 0" by (simp add: count_occ_zero_iff)
  with assms(2) show ?thesis by (cases u) auto
qed

lemma count_occ_inserted:
  assumes nl: "NL \<notin> set u" and ne: "u \<noteq> []"
    and a: "a = [] \<or> last a = NL" and ca: "\<not> contains a u" and cb: "\<not> contains b u"
  shows "count_occ (a @ u @ NL # b) u = 1"
proof -
  have ub: "count_occ (u @ NL # b) u = 1"
    using count_occ_split_newline [OF nl ne, of u b] count_occ_self_nl [OF nl ne] cb
    by (simp add: count_occ_zero_iff)
  show ?thesis
  proof (cases "a = []")
    case True
    with ub show ?thesis by simp
  next
    case False
    with a have "a = butlast a @ [NL]" by (metis append_butlast_last_id)
    then obtain a' where a': "a = a' @ [NL]" ..
    have "\<not> contains a' u"
    proof
      assume "contains a' u"
      then obtain x y where "a' = x @ u @ y" by (auto simp: contains_iff)
      then have "a = x @ u @ (y @ [NL])" using a' by simp
      with ca show False by (auto simp: contains_iff)
    qed
    then have "count_occ a' u = 0" by (simp add: count_occ_zero_iff)
    moreover have "count_occ (a @ u @ NL # b) u = count_occ a' u + count_occ (u @ NL # b) u"
      using count_occ_split_newline [OF nl ne, of a' "u @ NL # b"] a' by simp
    ultimately show ?thesis using ub by simp
  qed
qed

lemma contains_take: "contains (take i t) u \<Longrightarrow> contains t u"
proof -
  assume "contains (take i t) u"
  then obtain a b where "take i t = a @ u @ b" by (auto simp: contains_iff)
  then have "t = a @ u @ (b @ drop i t)" by (metis append_take_drop_id append.assoc)
  then show ?thesis by (auto simp: contains_iff)
qed

lemma contains_drop: "contains (drop i t) u \<Longrightarrow> contains t u"
proof -
  assume "contains (drop i t) u"
  then obtain a b where "drop i t = a @ u @ b" by (auto simp: contains_iff)
  then have "t = (take i t @ a) @ u @ b" by (metis append_take_drop_id append.assoc)
  then show ?thesis unfolding contains_iff by blast
qed

lemma contains_append_nl:
  assumes "NL \<notin> set u" and "u \<noteq> []" and "contains (a @ [NL]) u"
  shows "contains a u"
proof -
  have "count_occ (a @ NL # []) u = count_occ a u + count_occ [] u"
    by (rule count_occ_split_newline [OF assms(1,2)])
  with assms(2) have "count_occ (a @ [NL]) u = count_occ a u" by simp
  with assms(3) show ?thesis by (metis count_occ_zero_iff)
qed

lemma insertion_point_le:
  assumes "e \<le> length text"
  shows "insertion_point text e \<le> length text"
proof -
  have "length (takeWhile (\<lambda>c. c \<noteq> NL) (drop e text)) \<le> length (drop e text)"
    by (rule length_takeWhile_le)
  with assms insertion_point_eq [OF assms] show ?thesis by simp
qed

lemma last_take: "0 < i \<Longrightarrow> i \<le> length t \<Longrightarrow> last (take i t) = t ! (i - 1)"
proof -
  assume a: "0 < i" "i \<le> length t"
  then have "take i t \<noteq> []" by auto
  then have "last (take i t) = take i t ! (length (take i t) - 1)" by (rule last_conv_nth)
  also from a have "\<dots> = take i t ! (i - 1)" by (simp add: min_def)
  also from a have "\<dots> = t ! (i - 1)" by (intro nth_take) simp
  finally show ?thesis .
qed

text \<open>The shape of every text that the mutator writes.\<close>

lemma ensure_line_text_shape:
  assumes nc: "\<not> contains text line" and w: "ensure_line_text line re text = Some t'"
    and nl: "NL \<notin> set line"
  shows "\<exists>a b. t' = a @ line @ NL # b \<and> (a = [] \<or> last a = NL)
           \<and> \<not> contains a line \<and> \<not> contains b line
           \<and> set a \<union> set b \<subseteq> set text \<union> {NL}"
proof -
  from nc have ne: "line \<noteq> []" by (cases "text") auto
  show ?thesis
  proof (cases "anchor_match re text")
    case None
    with nc w have t': "t' = append_line text line" by (simp add: ensure_line_text_def)
    let ?a = "if \<not> ends_with_nl text then text @ [NL] else text"
    have 1: "t' = ?a @ line @ NL # []" using t' by (simp add: append_line_def)
    have 2: "?a = [] \<or> last ?a = NL" by (auto simp: ends_with_nl_def)
    have 3: "\<not> contains ?a line" using nc contains_append_nl [OF nl ne] by auto
    have 4: "\<not> contains [] line" using ne by simp
    have 5: "set ?a \<union> set [] \<subseteq> set text \<union> {NL}" by auto
    from 1 2 3 4 5 show ?thesis by blast
  next
    case (Some se)
    obtain st e where "se = (st, e)" by (cases se)
    with Some nc w have t': "t' = insert_line_at text (insertion_point text e) line"
      by (simp add: ensure_line_text_def)
    let ?i = "insertion_point text e"
    let ?sep = "if ?i > 0 \<and> text ! (?i - 1) \<noteq> NL then [NL] else []"
    let ?a = "take ?i text @ ?sep"
    have 1: "t' = ?a @ line @ NL # drop ?i text" using t' by (simp add: insert_line_at_def)
    have "re_search (the re) text = Some (st, e)"
      using Some \<open>se = (st, e)\<close>
      by (auto simp: anchor_match_def split: option.splits if_splits)
    then have "e \<le> length text" using re_search_Some by blast
    then have ile: "?i \<le> length text" by (rule insertion_point_le)
    have 2: "?a = [] \<or> last ?a = NL"
    proof (cases "?i > 0 \<and> text ! (?i - 1) \<noteq> NL")
      case True
      then show ?thesis by simp
    next
      case False
      show ?thesis
      proof (cases "?i = 0")
        case True
        then show ?thesis by simp
      next
        case nz: False
        with False have x: "text ! (?i - 1) = NL" by simp
        from nz ile have "last (take ?i text) = text ! (?i - 1)" by (intro last_take) auto
        with x False show ?thesis by simp
      qed
    qed
    have nt: "\<not> contains (take ?i text) line" using nc contains_take by blast
    have 3: "\<not> contains ?a line"
    proof (cases "?i > 0 \<and> text ! (?i - 1) \<noteq> NL")
      case True
      then have eq: "?a = take ?i text @ [NL]" by simp
      have x: "\<not> contains (take ?i text @ [NL]) line"
        using nt contains_append_nl [OF nl ne] by blast
      show ?thesis unfolding eq by (rule x)
    next
      case False
      then have eq: "?a = take ?i text" by simp
      show ?thesis unfolding eq by (rule nt)
    qed
    have 4: "\<not> contains (drop ?i text) line" using nc contains_drop by blast
    have 5: "set ?a \<union> set (drop ?i text) \<subseteq> set text \<union> {NL}"
      using set_take_subset [of ?i "text"] set_drop_subset [of ?i "text"] by auto
    from 1 2 3 4 5 show ?thesis by blast
  qed
qed


lemma ensure_line_text_writes:
  "\<not> contains txt line \<Longrightarrow> \<exists>t'. ensure_line_text line re txt = Some t'"
  by (auto simp: ensure_line_text_def split: option.splits)

lemma re_search_leftmost:
  assumes st: "st \<le> length txt" and m: "match_at p txt st = Some n"
    and first: "\<forall>k<st. match_at p txt k = None"
  shows "re_search p txt = Some (st, st + n)"
proof (cases "re_search p txt")
  case None
  then have "match_at p txt st = None" using st by (rule re_search_None)
  with m show ?thesis by simp
next
  case (Some se)
  obtain st' e' where se: "se = (st', e')" by (cases se)
  with Some have r: "re_search p txt = Some (st', e')" by simp
  from re_search_Some [OF r] have a: "st' \<le> e'" "match_at p txt st' = Some (e' - st')"
    "\<forall>k<st'. match_at p txt k = None" by blast+
  have "\<not> st' < st" using first a(2) by auto
  moreover have "\<not> st < st'" using a(3) m by auto
  ultimately have eq: "st' = st" by simp
  with a(2) m have "e' - st' = n" by simp
  with a(1) eq have "e' = st + n" by simp
  with r eq show ?thesis by simp
qed

lemma anchor_match_None_iff:
  "anchor_match re txt = None \<longleftrightarrow>
     re = None \<or> re = Some [] \<or> (\<forall>k\<le>length txt. match_at (the re) txt k = None)"
proof (cases re)
  case None
  then show ?thesis by (simp add: anchor_match_def)
next
  case (Some p)
  then show ?thesis using re_search_None_iff [of p "txt"]
    by (cases "p = []") (simp_all add: anchor_match_def)
qed

section \<open>The Text-Line Mutator inserts after the first match\<close>

text \<open>
  C1, as amended. Let the text not contain the line, and let \<open>st\<close> be the leftmost offset
  at which the anchor pattern matches, with a match of \<open>n\<close> characters. Then
  \<^verbatim>\<open>ensure_line_in_file\<close> inserts the line, followed by a newline, at the end of the line
  of the text on which that first match ends (offset \<open>i\<close>: the end \<open>st + n\<close> of the match,
  moved forward to the next newline or to the end of the text), with a newline before
  it when the character before \<open>i\<close> is not one. Matches further down the text play no
  part.
\<close>

theorem ensure_line_text_after_first_match:
  assumes nc: "\<not> contains txt line" and p: "p \<noteq> []"
    and st: "st \<le> length txt" and m: "match_at p txt st = Some n"
    and first: "\<forall>k<st. match_at p txt k = None"
    and i: "i = st + n + length (takeWhile (\<lambda>c. c \<noteq> NL) (drop (st + n) txt))"
  shows "ensure_line_text line (Some p) txt
           = Some (take i txt @ (if 0 < i \<and> txt ! (i - 1) \<noteq> NL then [NL] else [])
                   @ line @ [NL] @ drop i txt)
         \<and> i \<le> length txt \<and> (i = length txt \<or> txt ! i = NL)"
proof -
  have r: "re_search p txt = Some (st, st + n)" by (rule re_search_leftmost [OF st m first])
  from re_search_Some [OF r] have e: "st + n \<le> length txt" by blast
  have ip: "insertion_point txt (st + n) = i" using insertion_point_eq [OF e] i by simp
  have il: "i \<le> length txt" using insertion_point_le [OF e] ip by simp
  have 1: "ensure_line_text line (Some p) txt
           = Some (take i txt @ (if 0 < i \<and> txt ! (i - 1) \<noteq> NL then [NL] else [])
                   @ line @ [NL] @ drop i txt)"
    using nc p r ip by (simp add: ensure_line_text_def anchor_match_def insert_line_at_def)
  have 2: "i = length txt \<or> txt ! i = NL"
  proof (cases "i = length txt")
    case False
    let ?d = "drop (st + n) txt"
    let ?k = "length (takeWhile (\<lambda>c. c \<noteq> NL) ?d)"
    from False il i have lt: "?k < length ?d" by simp
    then have "\<not> (?d ! ?k \<noteq> NL)" by (rule nth_length_takeWhile)
    moreover have "?d ! ?k = txt ! (st + n + ?k)" using e by (simp add: nth_drop)
    ultimately show ?thesis using i by simp
  qed simp
  from 1 il 2 show ?thesis by blast
qed

theorem ensure_line_text_after_first_match_witness:
  "ensure_line_text ksu_makefile_line (Some makefile_anchor) commented_rules
     = Some (''# x'' @ [NL] @ ''obj-$(CONFIG_A) += a/'' @ [NL]
             @ ''obj-$(CONFIG_KSU) += kernelsu/'' @ [NL, NL] @ ''foo'' @ [NL])
   \<and> match_at makefile_anchor commented_rules 4 = Some 21
   \<and> match_at makefile_anchor commented_rules 0 = None
   \<and> match_at makefile_anchor commented_rules 1 = None
   \<and> match_at makefile_anchor commented_rules 2 = None
   \<and> match_at makefile_anchor commented_rules 3 = None"
proof -
  have nc: "\<not> contains commented_rules ksu_makefile_line" by code_simp
  have p: "makefile_anchor \<noteq> []" by code_simp
  have st: "(4::nat) \<le> length commented_rules" by code_simp
  have m: "match_at makefile_anchor commented_rules 4 = Some 21" by code_simp
  have z: "match_at makefile_anchor commented_rules 0 = None"
    "match_at makefile_anchor commented_rules 1 = None"
    "match_at makefile_anchor commented_rules 2 = None"
    "match_at makefile_anchor commented_rules 3 = None"
    by code_simp+
  have first: "\<forall>k<4. match_at makefile_anchor commented_rules k = None"
  proof (intro allI impI)
    fix k :: nat assume "k < 4"
    then consider "k = 0" | "k = 1" | "k = 2" | "k = 3" by linarith
    then show "match_at makefile_anchor commented_rules k = None"
      using z by cases (simp_all only:)
  qed
  have i: "(25::nat) = 4 + 21 + length (takeWhile (\<lambda>c. c \<noteq> NL) (drop (4 + 21) commented_rules))"
    by code_simp
  have v: "take 25 commented_rules
            @ (if 0 < (25::nat) \<and> commented_rules ! (25 - 1) \<noteq> NL then [NL] else [])
            @ ksu_makefile_line @ [NL] @ drop 25 commented_rules
           = ''# x'' @ [NL] @ ''obj-$(CONFIG_A) += a/'' @ [NL]
             @ ''obj-$(CONFIG_KSU) += kernelsu/'' @ [NL, NL] @ ''foo'' @ [NL]"
    by code_simp
  from ensure_line_text_after_first_match [OF nc p st m first i] v m z
  show ?thesis by simp
qed

text \<open>
  The claim as stated fails: in \<open>three_rules\<close> the pattern matches the three
  conditional-build lines, and the new line is put after the first of them, where the
  specification's reading puts it after the third.
\<close>

theorem ensure_line_text_last_match_counterexample:
  "ensure_line_text ksu_makefile_line (Some makefile_anchor) three_rules
     = Some (''obj-$(CONFIG_A) += a/'' @ [NL] @ ''obj-$(CONFIG_KSU) += kernelsu/'' @ [NL, NL]
             @ ''obj-$(CONFIG_B) += b/'' @ [NL] @ ''obj-$(CONFIG_C) += c/'' @ [NL]
             @ ''foo'' @ [NL])
   \<and> spec_ensure_line_text ksu_makefile_line (Some makefile_anchor) three_rules
     = Some (''obj-$(CONFIG_A) += a/'' @ [NL] @ ''obj-$(CONFIG_B) += b/'' @ [NL]
             @ ''obj-$(CONFIG_C) += c/'' @ [NL] @ ''obj-$(CONFIG_KSU) += kernelsu/'' @ [NL, NL]
             @ ''foo'' @ [NL])
   \<and> finditer makefile_anchor three_rules = [(0, 21), (22, 43), (44, 65)]
   \<and> re_search makefile_anchor three_rules = Some (0, 21)
   \<and> ensure_line_text ksu_makefile_line (Some makefile_anchor) three_rules
     \<noteq> spec_ensure_line_text ksu_makefile_line (Some makefile_anchor) three_rules"
  by code_simp

section \<open>The Text-Line Mutator does not duplicate a line\<close>

text \<open>
  C4. For a line without line terminators (no \<^verbatim>\<open>\n\<close>, no \<^verbatim>\<open>\r\<close>) and any regular file:
  a first call of \<^verbatim>\<open>ensure_line_in_file\<close> succeeds, and a second call with the same line
  (and any anchor) changes nothing. When the text read already contains the line the
  first call changes nothing either; otherwise the file written by the first call, and
  so the file after both calls, contains the line at exactly one offset.
\<close>

theorem ensure_line_in_file_twice:
  assumes f: "nodes s p = Some (File c)" and nl: "NL \<notin> set line" and cr: "CR \<notin> set line"
  shows "\<exists>s1. ensure_line_in_file p line re s = (None, s1)
          \<and> ensure_line_in_file p line re' s1 = (None, s1)
          \<and> (contains (universal_newlines c) line \<longrightarrow> s1 = s)
          \<and> (\<not> contains (universal_newlines c) line \<longrightarrow>
               (\<exists>c1. nodes s1 p = Some (File c1) \<and> count_occ c1 line = 1))"
proof (cases "contains (universal_newlines c) line")
  case True
  with f have "ensure_line_in_file p line r s = (None, s)" for r
    by (simp add: ensure_line_in_file_def read_text_def ensure_line_text_def)
  with True show ?thesis by blast
next
  case False
  let ?t = "universal_newlines c"
  from False obtain t' where w: "ensure_line_text line re ?t = Some t'"
    using ensure_line_text_writes by blast
  from False have ne: "line \<noteq> []" by (cases ?t) auto
  from ensure_line_text_shape [OF False w nl] obtain a b where
    sh: "t' = a @ line @ NL # b" "a = [] \<or> last a = NL" "\<not> contains a line"
      "\<not> contains b line" "set a \<union> set b \<subseteq> set ?t \<union> {NL}"
    by blast
  let ?s1 = "write_text p t' s"
  have 1: "ensure_line_in_file p line re s = (None, ?s1)"
    using f w by (simp add: ensure_line_in_file_def read_text_def)
  have n1: "nodes ?s1 p = Some (File t')" by (simp add: write_text_def)
  have "CR \<notin> set a \<union> set b" using sh(5) universal_newlines_no_cr [of c] by auto
  with cr sh(1) have "CR \<notin> set t'" by auto
  then have r: "universal_newlines t' = t'" by (rule universal_newlines_id)
  have "t' = a @ line @ (NL # b)" using sh(1) by simp
  then have ct: "contains t' line" unfolding contains_iff by blast
  have 2: "ensure_line_in_file p line re' ?s1 = (None, ?s1)"
    using n1 r ct by (simp add: ensure_line_in_file_def read_text_def ensure_line_text_def)
  have 3: "count_occ t' line = 1"
    unfolding sh(1) by (rule count_occ_inserted [OF nl ne sh(2,3,4)])
  from 1 2 n1 3 False show ?thesis by blast
qed

theorem ensure_line_in_file_twice_witness:
  "ensure_line_in_file (drivers_makefile [''k'']) ksu_makefile_line (Some makefile_anchor)
      (snd (ensure_line_in_file (drivers_makefile [''k'']) ksu_makefile_line
              (Some makefile_anchor) makefile_state))
     = (None, snd (ensure_line_in_file (drivers_makefile [''k'']) ksu_makefile_line
                     (Some makefile_anchor) makefile_state))
   \<and> (\<exists>c1. nodes (snd (ensure_line_in_file (drivers_makefile [''k'']) ksu_makefile_line
                          (Some makefile_anchor) makefile_state)) (drivers_makefile [''k''])
               = Some (File c1) \<and> count_occ c1 ksu_makefile_line = 1)"
proof -
  have f: "nodes makefile_state (drivers_makefile [''k''])
             = Some (File (''obj-y += base/'' @ [CR, NL]))"
    by (simp add: makefile_state_def drivers_makefile_def)
  have nl: "NL \<notin> set ksu_makefile_line" by (simp add: ksu_makefile_line_def)
  have cr: "CR \<notin> set ksu_makefile_line" by (simp add: ksu_makefile_line_def)
  have nc: "\<not> contains (universal_newlines (''obj-y += base/'' @ [CR, NL])) ksu_makefile_line"
    by code_simp
  from ensure_line_in_file_twice [OF f nl cr, of "Some makefile_anchor" "Some makefile_anchor"] nc
  show ?thesis by auto
qed

section \<open>The fallback of the Text-Line Mutator\<close>

text \<open>
  C8, as amended. The fallback is taken exactly when no anchor is given, the anchor is
  the empty string, or the anchor matches at no offset of the text. For a text that does
  not contain the line, \<^verbatim>\<open>ensure_line_in_file\<close> then writes the text, followed by one
  newline when the text does not already end with a newline, followed by the line and a
  newline: the text keeps the newlines it ends with, however many, and an empty text
  gets a leading newline.
\<close>

theorem ensure_line_fallback_appends:
  "(anchor_match re txt = None \<longleftrightarrow>
      re = None \<or> re = Some [] \<or> (\<forall>k\<le>length txt. match_at (the re) txt k = None))
   \<and> (\<not> contains txt line \<and> anchor_match re txt = None \<longrightarrow>
        ensure_line_text line re txt
          = Some (txt @ (if ends_with_nl txt then [] else [NL]) @ line @ [NL]))
   \<and> (nodes s p = Some (File c) \<and> \<not> contains (universal_newlines c) line
        \<and> anchor_match re (universal_newlines c) = None \<longrightarrow>
        ensure_line_in_file p line re s
          = (None, write_text p (universal_newlines c
                @ (if ends_with_nl (universal_newlines c) then [] else [NL]) @ line @ [NL]) s))"
proof (intro conjI impI)
  show "anchor_match re txt = None \<longleftrightarrow>
      re = None \<or> re = Some [] \<or> (\<forall>k\<le>length txt. match_at (the re) txt k = None)"
    by (rule anchor_match_None_iff)
next
  assume "\<not> contains txt line \<and> anchor_match re txt = None"
  then show "ensure_line_text line re txt
          = Some (txt @ (if ends_with_nl txt then [] else [NL]) @ line @ [NL])"
    by (simp add: ensure_line_text_def append_line_def)
next
  assume "nodes s p = Some (File c) \<and> \<not> contains (universal_newlines c) line
        \<and> anchor_match re (universal_newlines c) = None"
  then show "ensure_line_in_file p line re s
          = (None, write_text p (universal_newlines c
                @ (if ends_with_nl (universal_newlines c) then [] else [NL]) @ line @ [NL]) s)"
    by (simp add: ensure_line_text_def append_line_def ensure_line_in_file_def read_text_def)
qed

theorem ensure_line_fallback_appends_witness:
  "ensure_line_text ''x'' None (''a'' @ [NL, NL]) = Some (''a'' @ [NL, NL] @ ''x'' @ [NL])
   \<and> ensure_line_text ksu_makefile_line (Some makefile_anchor) ''foo''
       = Some (''foo'' @ [NL] @ ''obj-$(CONFIG_KSU) += kernelsu/'' @ [NL])
   \<and> match_at makefile_anchor ''foo'' 0 = None \<and> match_at makefile_anchor ''foo'' 3 = None
   \<and> ensure_line_in_file [''k'', ''drivers'', ''Kconfig''] ''source y'' None crlf_state
       = (None, write_text [''k'', ''drivers'', ''Kconfig'']
                  (''menu'' @ [NL] @ ''source x'' @ [NL] @ ''source y'' @ [NL]) crlf_state)"
proof -
  have 1: "\<not> contains (''a'' @ [NL, NL]) ''x'' \<and> anchor_match None (''a'' @ [NL, NL]) = None"
    by code_simp
  have 2: "\<not> contains ''foo'' ksu_makefile_line \<and> anchor_match (Some makefile_anchor) ''foo'' = None"
    by code_simp
  have 3: "nodes crlf_state [''k'', ''drivers'', ''Kconfig'']
             = Some (File (''menu'' @ [CR, NL] @ ''source x'' @ [CR, NL]))
           \<and> \<not> contains (universal_newlines (''menu'' @ [CR, NL] @ ''source x'' @ [CR, NL])) ''source y''
           \<and> anchor_match None (universal_newlines (''menu'' @ [CR, NL] @ ''source x'' @ [CR, NL])) = None"
    by (simp add: crlf_state_def anchor_match_def)
  have a: "makefile_anchor \<noteq> []" by code_simp
  from ensure_line_fallback_appends [of None "''a'' @ [NL, NL]" "''x''"] 1
  have r1: "ensure_line_text ''x'' None (''a'' @ [NL, NL]) = Some (''a'' @ [NL, NL] @ ''x'' @ [NL])"
    by (simp add: ends_with_nl_def)
  from ensure_line_fallback_appends [of "Some makefile_anchor" "''foo''" ksu_makefile_line] 2 a
  have r2: "ensure_line_text ksu_makefile_line (Some makefile_anchor) ''foo''
       = Some (''foo'' @ [NL] @ ''obj-$(CONFIG_KSU) += kernelsu/'' @ [NL])"
    and r3: "\<forall>k\<le>length ''foo''. match_at makefile_anchor ''foo'' k = None"
    by (simp_all add: ends_with_nl_def ksu_makefile_line_def)
  from ensure_line_fallback_appends [of None _ "''source y''" crlf_state
      "[''k'', ''drivers'', ''Kconfig'']" "''menu'' @ [CR, NL] @ ''source x'' @ [CR, NL]"] 3
  have r4: "ensure_line_in_file [''k'', ''drivers'', ''Kconfig''] ''source y'' None crlf_state
       = (None, write_text [''k'', ''drivers'', ''Kconfig'']
                  (''menu'' @ [NL] @ ''source x'' @ [NL] @ ''source y'' @ [NL]) crlf_state)"
    by (simp add: ends_with_nl_def)
  from r3 have r5: "match_at makefile_anchor ''foo'' 0 = None"
    "match_at makefile_anchor ''foo'' 3 = None"
    by simp_all
  from r1 r2 r5 r4 show ?thesis by blast
qed

text \<open>
  The claim as stated fails: a text that ends with two newlines keeps both before the
  appended line, where the specification's reading leaves exactly one.
\<close>

theorem ensure_line_fallback_counterexample:
  "ensure_line_text ''x'' None (''a'' @ [NL, NL]) = Some (''a'' @ [NL, NL] @ ''x'' @ [NL])
   \<and> spec_append_line (''a'' @ [NL, NL]) ''x'' = ''a'' @ [NL] @ ''x'' @ [NL]
   \<and> ensure_line_text ''x'' None (''a'' @ [NL, NL])
       \<noteq> Some (spec_append_line (''a'' @ [NL, NL]) ''x'')"
  by code_simp

section \<open>Patterns made of literals\<close>

lemma lit_Nil [simp]: "lit [] = []" by (simp add: lit_def)
lemma lit_Cons [simp]: "lit (c # u) = One (Ch c) # lit u" by (simp add: lit_def)
lemma lit_append: "lit (u @ v) = lit u @ lit v" by (simp add: lit_def)

text \<open>Matching a literal: the text must start with it.\<close>

lemma match_here_lit_mismatch: "\<not> prefix u s \<Longrightarrow> match_here (lit u @ p) b s = None"
proof (induction u arbitrary: b s)
  case Nil
  then show ?case by simp
next
  case (Cons c u)
  then show ?case by (cases s) auto
qed

lemma match_here_lit:
  "match_here (lit u @ p) b (u @ r) =
     (case match_here p (if u = [] then b else last u = NL) r of
        None \<Rightarrow> None | Some n \<Rightarrow> Some (length u + n))"
proof (induction u arbitrary: b)
  case Nil
  then show ?case by (cases "match_here p b r") simp_all
next
  case (Cons c u)
  show ?case
  proof (cases "u = []")
    case True
    then show ?thesis by (cases "match_here p (c = NL) r") simp_all
  next
    case False
    with Cons.IH [of "c = NL"] show ?thesis
      by (cases "match_here p (last u = NL) r") simp_all
  qed
qed

lemma match_here_star_dot_eol:
  "match_here [Star Dot, Eol] b s = Some (length (takeWhile (\<lambda>c. c \<noteq> NL) s))"
  by (induction s arbitrary: b) auto

lemma match_here_Bol_False: "match_here (Bol # p) False s = None"
  by simp

lemma match_assign_line:
  assumes "NL \<notin> set symb"
  shows "match_here (assign_line_pattern symb) True s =
     (if prefix (assign_prefix symb) s
      then Some (length (takeWhile (\<lambda>c. c \<noteq> NL) s)) else None)"
proof -
  let ?P = "assign_prefix symb"
  have pat: "assign_line_pattern symb = Bol # lit ?P @ [Star Dot, Eol]"
    by (simp add: assign_line_pattern_def assign_prefix_def lit_append)
  have nl: "NL \<notin> set ?P" using assms by (simp add: assign_prefix_def)
  show ?thesis
  proof (cases "prefix ?P s")
    case True
    then obtain r where s: "s = ?P @ r" by (auto simp: prefix_def)
    have "takeWhile (\<lambda>c. c \<noteq> NL) (?P @ r) = ?P @ takeWhile (\<lambda>c. c \<noteq> NL) r"
      using nl by (intro takeWhile_append2) auto
    with True s show ?thesis
      by (simp add: pat match_here_lit match_here_star_dot_eol del: lit_Cons)
  next
    case False
    then show ?thesis by (simp add: pat match_here_lit_mismatch)
  qed
qed

lemma match_assign_prefix:
  "match_here (assign_prefix_pattern symb) True s =
     (if prefix (assign_prefix symb) s then Some (length (assign_prefix symb)) else None)"
proof -
  have pat: "assign_prefix_pattern symb = Bol # lit (assign_prefix symb) @ []"
    by (simp add: assign_prefix_pattern_def assign_prefix_def lit_append)
  show ?thesis
  proof (cases "prefix (assign_prefix symb) s")
    case True
    then obtain r where s: "s = assign_prefix symb @ r" by (auto simp: prefix_def)
    show ?thesis unfolding pat s by (simp add: match_here_lit del: append_Nil2)
  next
    case False
    then show ?thesis unfolding pat by (simp add: match_here_lit_mismatch del: append_Nil2)
  qed
qed

section \<open>Lines of a text, and substitution line by line\<close>

lemma first_line_simps [simp]:
  "first_line [] = []"
  "first_line (NL # s) = []"
  "c \<noteq> NL \<Longrightarrow> first_line (c # s) = c # first_line s"
  by (simp_all add: first_line_def)

lemma after_first_line_simps [simp]:
  "after_first_line [] = []"
  "after_first_line (NL # s) = s"
  "c \<noteq> NL \<Longrightarrow> after_first_line (c # s) = after_first_line s"
  by (simp_all add: after_first_line_def)

lemma first_line_no_nl: "NL \<notin> set (first_line s)"
  unfolding first_line_def by (induction s) auto

lemma length_after_first_line: "s \<noteq> [] \<Longrightarrow> length (after_first_line s) < length s"
proof (induction s)
  case Nil
  then show ?case by simp
next
  case (Cons c s)
  then show ?case by (cases "c = NL"; cases "s = []") auto
qed

lemma line_decomp:
  "s = first_line s @ (if NL \<in> set s then NL # after_first_line s else [])"
proof (induction s)
  case Nil
  then show ?case by simp
next
  case (Cons c s)
  then show ?case by (cases "c = NL") auto
qed

lemma first_line_append_nl:
  "NL \<notin> set l \<Longrightarrow> first_line (l @ NL # t) = l"
  by (induction l) auto

lemma after_first_line_append_nl:
  "NL \<notin> set l \<Longrightarrow> after_first_line (l @ NL # t) = t"
  by (induction l) auto

lemma first_line_id: "NL \<notin> set l \<Longrightarrow> first_line l = l"
  by (induction l) auto

lemma after_first_line_none: "NL \<notin> set l \<Longrightarrow> after_first_line l = []"
  by (induction l) auto

lemma lines_of_unfold:
  "s \<noteq> [] \<Longrightarrow> lines_of s = first_line s # lines_of (after_first_line s)"
proof (induction s)
  case Nil
  then show ?case by simp
next
  case (Cons c s)
  show ?case
  proof (cases "c = NL")
    case True
    then show ?thesis by simp
  next
    case False
    show ?thesis
    proof (cases "s = []")
      case True
      with False show ?thesis by simp
    next
      case ne: False
      with Cons.IH have "lines_of s = first_line s # lines_of (after_first_line s)" by simp
      with False show ?thesis by simp
    qed
  qed
qed

lemma lines_of_cons_line:
  "NL \<notin> set l \<Longrightarrow> lines_of (l @ NL # t) = l # lines_of t"
  using lines_of_unfold [of "l @ NL # t"]
  by (simp add: first_line_append_nl after_first_line_append_nl)

lemma lines_of_single:
  "NL \<notin> set l \<Longrightarrow> l \<noteq> [] \<Longrightarrow> lines_of l = [l]"
  using lines_of_unfold [of l] by (simp add: first_line_id after_first_line_none)

lemma line_induct [case_names line]:
  assumes "\<And>s. (s \<noteq> [] \<Longrightarrow> P (after_first_line s)) \<Longrightarrow> P s"
  shows "P s"
proof (induction s rule: length_induct)
  case (1 s)
  show ?case
  proof (rule assms)
    assume "s \<noteq> []"
    then have "length (after_first_line s) < length s" by (rule length_after_first_line)
    with 1 show "P (after_first_line s)" by blast
  qed
qed

text \<open>Substitution with a pattern that starts with \<^verbatim>\<open>^\<close> and a character.\<close>

lemma sub_from_Nil: "sub_from (Bol # One a # q) r b [] = []"
  by (cases b) simp_all

lemma match_anchored_nonzero: "match_here (Bol # One a # q) b s \<noteq> Some 0"
  by (cases b; cases s) auto

lemma sub_from_off_line:
  "sub_from (Bol # One a # q) r False s
     = first_line s @ (if NL \<in> set s then NL # sub_from (Bol # One a # q) r True (after_first_line s)
                       else [])"
proof (induction s)
  case Nil
  then show ?case by simp
next
  case (Cons c s)
  then show ?case by (cases "c = NL") auto
qed

lemma sub_from_no_match:
  assumes "match_here (Bol # One a # q) True s = None" and "s \<noteq> []"
  shows "sub_from (Bol # One a # q) r True s
     = first_line s @ (if NL \<in> set s then NL # sub_from (Bol # One a # q) r True (after_first_line s)
                       else [])"
proof -
  from assms(2) obtain c s' where s: "s = c # s'" by (cases s) auto
  show ?thesis
  proof (cases "c = NL")
    case True
    with assms(1) s show ?thesis by simp
  next
    case False
    with assms(1) s sub_from_off_line [of a q r s'] show ?thesis by simp
  qed
qed

lemma sub_from_match:
  assumes "match_here (Bol # One a # q) True s = Some n"
  shows "sub_from (Bol # One a # q) r True s
           = r @ sub_from (Bol # One a # q) r (s ! (n - 1) = NL) (drop n s)"
proof -
  from assms obtain c s' where s: "s = c # s'" by (cases s) auto
  from assms match_anchored_nonzero [of a q True s] obtain m where n: "n = Suc m"
    by (cases n) auto
  from assms s n show ?thesis by simp
qed

section \<open>Rewriting the assignment lines\<close>

lemma assign_prefix_nonempty: "assign_prefix symb \<noteq> []"
  by (simp add: assign_prefix_def)

lemma assign_line_pattern_shape:
  "\<exists>q. assign_line_pattern symb = Bol # One (Ch CHR ''C'') # q"
  by (simp add: assign_line_pattern_def)

lemma prefix_first_line:
  assumes "NL \<notin> set u"
  shows "prefix u (first_line s) \<longleftrightarrow> prefix u s"
proof (cases "NL \<in> set s")
  case True
  then have s: "s = first_line s @ NL # after_first_line s" using line_decomp [of s] by simp
  show ?thesis
  proof
    assume "prefix u (first_line s)"
    then have "prefix u (first_line s @ NL # after_first_line s)" by (rule prefix_prefix)
    with s show "prefix u s" by simp
  next
    assume "prefix u s"
    with s have "prefix u (first_line s @ NL # after_first_line s)" by simp
    then have "prefix u (first_line s) \<or> (\<exists>us. u = first_line s @ us \<and> prefix us (NL # after_first_line s))"
      by (simp only: prefix_append)
    then show "prefix u (first_line s)"
    proof
      assume "\<exists>us. u = first_line s @ us \<and> prefix us (NL # after_first_line s)"
      then obtain us where us: "u = first_line s @ us" "prefix us (NL # after_first_line s)" by blast
      show ?thesis
      proof (cases us)
        case Nil
        with us(1) show ?thesis by simp
      next
        case (Cons x r)
        with us(2) have "x = NL" by simp
        with Cons us(1) assms show ?thesis by simp
      qed
    qed
  qed
next
  case False
  then have "first_line s = s" by (rule first_line_id)
  then show ?thesis by simp
qed

text \<open>One step of the rewriting of assignment lines.\<close>

lemma sub_assign_step:
  assumes nl: "NL \<notin> set symb" and ne: "s \<noteq> []"
  shows "sub_from (assign_line_pattern symb) r True s
     = (if prefix (assign_prefix symb) (first_line s) then r else first_line s)
       @ (if NL \<in> set s
          then NL # sub_from (assign_line_pattern symb) r True (after_first_line s) else [])"
proof -
  let ?A = "assign_line_pattern symb" and ?P = "assign_prefix symb"
  obtain q where A: "?A = Bol # One (Ch CHR ''C'') # q"
    using assign_line_pattern_shape by blast
  have nlP: "NL \<notin> set ?P" using nl by (simp add: assign_prefix_def)
  show ?thesis
  proof (cases "prefix ?P s")
    case False
    then have "match_here ?A True s = None" by (simp only: match_assign_line [OF nl] if_False)
    then have "sub_from ?A r True s
       = first_line s @ (if NL \<in> set s then NL # sub_from ?A r True (after_first_line s) else [])"
      unfolding A using ne by (rule sub_from_no_match)
    with False show ?thesis by (simp add: prefix_first_line [OF nlP])
  next
    case True
    let ?n = "length (first_line s)"
    have m: "match_here ?A True s = Some ?n"
      by (simp only: match_assign_line [OF nl] first_line_def True if_True)
    from True assign_prefix_nonempty [of symb] have "first_line s \<noteq> []"
      using prefix_first_line [OF nlP, of s] by auto
    then have pos: "0 < ?n" by simp
    have fl: "first_line s = take ?n s"
      unfolding first_line_def by (rule takeWhile_eq_take)
    have dr: "drop ?n s = dropWhile (\<lambda>c. c \<noteq> NL) s"
      unfolding first_line_def by (rule dropWhile_eq_drop [symmetric])
    have "s ! (?n - 1) = first_line s ! (?n - 1)"
      using pos by (subst fl) simp
    moreover have "first_line s ! (?n - 1) \<in> set (first_line s)" using pos by simp
    ultimately have notnl: "s ! (?n - 1) \<noteq> NL" using first_line_no_nl [of s] by metis
    have "sub_from ?A r True s = r @ sub_from ?A r (s ! (?n - 1) = NL) (drop ?n s)"
      unfolding A using m [unfolded A] by (rule sub_from_match)
    with notnl have 1: "sub_from ?A r True s = r @ sub_from ?A r False (drop ?n s)" by simp
    have 2: "sub_from ?A r False (drop ?n s)
       = first_line (drop ?n s)
         @ (if NL \<in> set (drop ?n s)
            then NL # sub_from ?A r True (after_first_line (drop ?n s)) else [])"
      unfolding A by (rule sub_from_off_line)
    have "first_line (dropWhile (\<lambda>c. c \<noteq> NL) s) = []"
      by (induction s) auto
    then have 3: "first_line (drop ?n s) = []" by (simp only: dr)
    have 4: "NL \<in> set (drop ?n s) \<longleftrightarrow> NL \<in> set s"
    proof
      assume "NL \<in> set (drop ?n s)"
      then show "NL \<in> set s" by (rule in_set_dropD)
    next
      assume "NL \<in> set s"
      then have "s = first_line s @ NL # after_first_line s" using line_decomp [of s] by simp
      then have "drop ?n s = drop ?n (first_line s @ NL # after_first_line s)" by simp
      then have "drop ?n s = NL # after_first_line s" by simp
      then show "NL \<in> set (drop ?n s)" by simp
    qed
    have "after_first_line (dropWhile (\<lambda>c. c \<noteq> NL) s) = after_first_line s"
      unfolding after_first_line_def by (simp only: dropWhile_idem)
    then have 5: "after_first_line (drop ?n s) = after_first_line s" by (simp only: dr)
    from 1 2 3 4 5 True show ?thesis by (simp add: prefix_first_line [OF nlP])
  qed
qed

lemma lines_of_sub_assign:
  assumes nl: "NL \<notin> set symb" and nr: "NL \<notin> set r" and ne: "r \<noteq> []"
  shows "lines_of (sub_from (assign_line_pattern symb) r True s)
           = map (\<lambda>l. if prefix (assign_prefix symb) l then r else l) (lines_of s)"
proof (induction s rule: line_induct)
  case (line s)
  let ?A = "assign_line_pattern symb" and ?P = "assign_prefix symb"
  let ?f = "\<lambda>l. if prefix ?P l then r else l"
  show ?case
  proof (cases "s = []")
    case True
    obtain q where A: "?A = Bol # One (Ch CHR ''C'') # q"
      using assign_line_pattern_shape by blast
    from True show ?thesis unfolding A by (simp add: sub_from_Nil)
  next
    case False
    note step = sub_assign_step [OF nl False, of r]
    have fnl: "NL \<notin> set (?f (first_line s))" using nr first_line_no_nl [of s] by simp
    show ?thesis
    proof (cases "NL \<in> set s")
      case True
      with step have "sub_from ?A r True s
         = ?f (first_line s) @ NL # sub_from ?A r True (after_first_line s)" by simp
      then have "lines_of (sub_from ?A r True s)
         = ?f (first_line s) # lines_of (sub_from ?A r True (after_first_line s))"
        using lines_of_cons_line [OF fnl] by simp
      with line [OF False] lines_of_unfold [OF False] show ?thesis by simp
    next
      case nonl: False
      with step have o: "sub_from ?A r True s = ?f (first_line s)" by simp
      from nonl have fs: "first_line s = s" "after_first_line s = []"
        by (simp_all add: first_line_id after_first_line_none)
      have "?f (first_line s) \<noteq> []" using ne False fs by simp
      with fnl have "lines_of (?f (first_line s)) = [?f (first_line s)]"
        by (rule lines_of_single)
      with o lines_of_unfold [OF False] fs show ?thesis by simp
    qed
  qed
qed

section \<open>Removing the disabled markers\<close>

lemma ends_line_Suc: "ends_line s n \<Longrightarrow> ends_line (c # s) (Suc n)"
  by (cases n) (auto simp: ends_line_def)

lemma match_here_line_tail:
  "match_here [Eol, Opt (Ch NL)] b s = Some n \<Longrightarrow> ends_line s n"
  by (cases s) (auto simp: ends_line_def split: if_splits)

lemma match_here_ends_line:
  "p = q @ [Eol, Opt (Ch NL)] \<Longrightarrow> match_here p b s = Some n \<Longrightarrow> ends_line s n"
proof (induction p b s arbitrary: q n rule: match_here.induct)
  case (1 bol s)
  then show ?case by simp
next
  case (2 p bol s)
  from "2.prems"(1) obtain q' where "q = Bol # q'" "p = q' @ [Eol, Opt (Ch NL)]" by (cases q) auto
  with 2 show ?case by (auto split: if_splits)
next
  case (3 p bol)
  then show ?case by (simp add: ends_line_def)
next
  case (4 p bol c s)
  show ?case
  proof (cases q)
    case Nil
    with "4.prems"(1) have "p = [Opt (Ch NL)]" by simp
    with "4.prems"(2) show ?thesis using match_here_line_tail [of bol "c # s" n] by simp
  next
    case (Cons x q')
    with "4.prems"(1) have "p = q' @ [Eol, Opt (Ch NL)]" by simp
    with 4 show ?thesis by (auto split: if_splits)
  qed
next
  case (5 a p bol)
  then show ?case by (simp add: ends_line_def)
next
  case (6 a p bol c s)
  from "6.prems"(1) obtain q' where q: "q = One a # q'" "p = q' @ [Eol, Opt (Ch NL)]"
    by (cases q) auto
  from "6.prems"(2) obtain m where m: "atom_ok a c" "match_here p (c = NL) s = Some m" "n = Suc m"
    by (auto split: if_splits)
  from "6.IH" [OF m(1) q(2) m(2)] m(3) show ?case by (simp add: ends_line_Suc)
next
  case (7 a p bol)
  then show ?case by (simp add: ends_line_def)
next
  case (8 a p bol c s)
  from "8.prems"(1) obtain q' where q: "q = Plus a # q'" "p = q' @ [Eol, Opt (Ch NL)]"
    by (cases q) auto
  from "8.prems"(2) obtain m where m: "atom_ok a c"
    "match_here (Star a # p) (c = NL) s = Some m" "n = Suc m"
    by (auto split: if_splits)
  have "Star a # p = (Star a # q') @ [Eol, Opt (Ch NL)]" using q(2) by simp
  from "8.IH" [OF m(1) this m(2)] m(3) show ?case by (simp add: ends_line_Suc)
next
  case (9 a p bol)
  show ?case by (simp add: ends_line_def)
next
  case (10 a p bol c s)
  from "10.prems"(1) obtain q' where q: "q = Opt a # q'" "p = q' @ [Eol, Opt (Ch NL)]"
    by (cases q) auto
  show ?case
  proof (cases "atom_ok a c")
    case True
    show ?thesis
    proof (cases "match_here p (c = NL) s")
      case None
      with True "10.prems"(2) have "match_here p bol (c # s) = Some n" by simp
      from "10.IH"(2) [OF True None q(2) this] show ?thesis .
    next
      case (Some m)
      with True "10.prems"(2) have "n = Suc m" by simp
      with "10.IH"(1) [OF True q(2) Some] show ?thesis by (simp add: ends_line_Suc)
    qed
  next
    case False
    with "10.prems"(2) have "match_here p bol (c # s) = Some n" by simp
    from "10.IH"(3) [OF False q(2) this] show ?thesis .
  qed
next
  case (11 a p bol)
  show ?case by (simp add: ends_line_def)
next
  case (12 a p bol c s)
  from "12.prems"(1) obtain q' where q: "q = Star a # q'" "p = q' @ [Eol, Opt (Ch NL)]"
    by (cases q) auto
  show ?case
  proof (cases "atom_ok a c")
    case True
    show ?thesis
    proof (cases "match_here (Star a # p) (c = NL) s")
      case None
      with True "12.prems"(2) have "match_here p bol (c # s) = Some n" by simp
      from "12.IH"(2) [OF True None q(2) this] show ?thesis .
    next
      case (Some m)
      with True "12.prems"(2) have "n = Suc m" by simp
      with "12.IH"(1) [OF True "12.prems"(1) Some] show ?thesis by (simp add: ends_line_Suc)
    qed
  next
    case False
    with "12.prems"(2) have "match_here p bol (c # s) = Some n" by simp
    from "12.IH"(3) [OF False q(2) this] show ?thesis .
  qed
qed

lemma marker_pattern_shape:
  "\<exists>q. marker_pattern symb = Bol # One (Ch CHR ''#'') # q"
  by (simp add: marker_pattern_def)

lemma marker_pattern_tail:
  "\<exists>q. marker_pattern symb = q @ [Eol, Opt (Ch NL)]"
proof -
  have "marker_pattern symb
          = ([Bol, One (Ch (CHR ''#'')), Star Space] @ lit ''CONFIG_'' @ lit symb
             @ [Plus Space] @ lit ''is'' @ [Plus Space] @ lit ''not'' @ [Plus Space] @ lit ''set''
             @ [Star Space]) @ [Eol, Opt (Ch NL)]"
    unfolding marker_pattern_def by (simp only: append_assoc append_Cons append_Nil)
  then show ?thesis by blast
qed

lemma marker_match_ends_line:
  assumes "match_here (marker_pattern symb) True s = Some n"
  shows "0 < n" and "n \<le> length s" and "ends_line s n"
proof -
  obtain q where q: "marker_pattern symb = Bol # One (Ch CHR ''#'') # q"
    using marker_pattern_shape by blast
  from assms match_anchored_nonzero [of "Ch CHR ''#''" q True s] show "0 < n"
    unfolding q by (cases n) auto
  from assms show "n \<le> length s" by (rule match_here_le)
  obtain q' where "marker_pattern symb = q' @ [Eol, Opt (Ch NL)]"
    using marker_pattern_tail by blast
  from this assms show "ends_line s n" by (rule match_here_ends_line)
qed

text \<open>The marker pattern matches every line that is the marker.\<close>

lemma always_matches_final:
  assumes "r = [] \<or> hd r = NL"
  shows "always_matches [Star Space, Eol, Opt (Ch NL)] r"
proof (cases r)
  case Nil
  then show ?thesis by (simp add: always_matches_def)
next
  case (Cons c t)
  with assms have "c = NL" by simp
  with Cons show ?thesis
    by (auto simp: always_matches_def is_space_def split: option.splits)
qed

lemma always_matches_lit:
  assumes "always_matches p r"
  shows "always_matches (lit w @ p) (w @ r)"
proof -
  have "match_here (lit w @ p) b (w @ r) \<noteq> None" for b
  proof -
    from assms obtain n where "match_here p (if w = [] then b else last w = NL) r = Some n"
      unfolding always_matches_def by blast
    then show ?thesis by (simp add: match_here_lit)
  qed
  then show ?thesis by (simp add: always_matches_def)
qed

lemma always_matches_space_word:
  assumes "always_matches p r" and "w \<noteq> []" and "\<not> is_space (hd w)"
  shows "always_matches (Plus Space # lit w @ p) (CHR '' '' # w @ r)"
proof -
  from assms(2) obtain c w' where w: "w = c # w'" by (cases w) auto
  have l: "always_matches (lit w @ p) (w @ r)" using assms(1) by (rule always_matches_lit)
  have "match_here (Plus Space # lit w @ p) b (CHR '' '' # w @ r) \<noteq> None" for b
  proof -
    have sp: "is_space CHR '' ''" by (simp add: is_space_def)
    have "match_here (Star Space # lit w @ p) False (w @ r)
            = match_here (lit w @ p) False (w @ r)"
      using assms(3) unfolding w by simp
    moreover have "match_here (lit w @ p) False (w @ r) \<noteq> None"
      using l by (simp add: always_matches_def)
    ultimately show ?thesis using sp by (auto simp del: lit_Cons)
  qed
  then show ?thesis by (simp add: always_matches_def)
qed

lemma marker_pattern_matches_marker:
  assumes "r = [] \<or> hd r = NL"
  shows "match_here (marker_pattern symb) True (marker_line symb @ r) \<noteq> None"
proof -
  let ?p4 = "[Star Space, Eol, Opt (Ch NL)]"
  let ?p3 = "Plus Space # lit ''set'' @ ?p4"
  let ?p2 = "Plus Space # lit ''not'' @ ?p3"
  let ?p1 = "Plus Space # lit ''is'' @ ?p2"
  let ?p0 = "lit (''CONFIG_'' @ symb) @ ?p1"
  have 4: "always_matches ?p4 r" using assms by (rule always_matches_final)
  have 3: "always_matches ?p3 (CHR '' '' # ''set'' @ r)"
    by (rule always_matches_space_word [OF 4]) (simp_all add: is_space_def)
  have 2: "always_matches ?p2 (CHR '' '' # ''not'' @ (CHR '' '' # ''set'' @ r))"
    by (rule always_matches_space_word [OF 3]) (simp_all add: is_space_def)
  have 1: "always_matches ?p1 (CHR '' '' # ''is'' @ (CHR '' '' # ''not'' @ (CHR '' '' # ''set'' @ r)))"
    by (rule always_matches_space_word [OF 2]) (simp_all add: is_space_def)
  have 0: "always_matches ?p0 ((''CONFIG_'' @ symb)
             @ (CHR '' '' # ''is'' @ (CHR '' '' # ''not'' @ (CHR '' '' # ''set'' @ r))))"
    by (rule always_matches_lit [OF 1])
  have pat: "marker_pattern symb = Bol # One (Ch CHR ''#'') # Star Space # ?p0"
    by (simp add: marker_pattern_def lit_append)
  have txt': "marker_line symb @ r
     = CHR ''#'' # CHR '' '' # ((''CONFIG_'' @ symb)
             @ (CHR '' '' # ''is'' @ (CHR '' '' # ''not'' @ (CHR '' '' # ''set'' @ r))))"
    by (simp add: marker_line_def)
  let ?rest = "(''CONFIG_'' @ symb)
             @ (CHR '' '' # ''is'' @ (CHR '' '' # ''not'' @ (CHR '' '' # ''set'' @ r)))"
  from 0 have m0: "match_here ?p0 b ?rest \<noteq> None" for b by (simp add: always_matches_def)
  have st: "match_here (Star Space # ?p0) False ?rest = match_here ?p0 False ?rest"
    by (simp add: is_space_def)
  have "match_here (Star Space # ?p0) b (CHR '' '' # ?rest) \<noteq> None" for b
    using m0 [of False] st by (auto simp: is_space_def simp del: lit_Cons append_Cons split: option.splits)
  then have "match_here (Bol # One (Ch CHR ''#'') # Star Space # ?p0) True
               (CHR ''#'' # CHR '' '' # ?rest) \<noteq> None"
    by (simp del: lit_Cons append_Cons match_here.simps(11,12))
  then show ?thesis unfolding pat txt' .
qed

lemma lines_of_nonempty: "s \<noteq> [] \<Longrightarrow> lines_of s \<noteq> []"
  using lines_of_unfold [of s] by simp

lemma lines_of_nl_nonempty: "lines_of (a @ [NL]) \<noteq> []"
  by (rule lines_of_nonempty) simp

lemma lines_of_split_at_nl:
  "lines_of (a @ NL # b) = lines_of (a @ [NL]) @ lines_of b"
proof (induction a)
  case Nil
  then show ?case by simp
next
  case (Cons c a)
  show ?case
  proof (cases "c = NL")
    case True
    with Cons show ?thesis by simp
  next
    case False
    obtain l ls where l: "lines_of (a @ [NL]) = l # ls"
      using lines_of_nl_nonempty [of a] by (cases "lines_of (a @ [NL])") auto
    with Cons have "lines_of (a @ NL # b) = l # ls @ lines_of b" by simp
    with l False show ?thesis by simp
  qed
qed

lemma lines_of_drop_subseq:
  assumes "ends_line s n" and "n \<le> length s"
  shows "subseq (lines_of (drop n s)) (lines_of s)"
proof (cases "drop n s = []")
  case True
  then show ?thesis by simp
next
  case False
  with assms(1) have n: "0 < n" "s ! (n - 1) = NL" by (auto simp: ends_line_def)
  from False have lt: "n - 1 < length s" using assms(2) n(1) by simp
  have "s = take (n - 1) s @ s ! (n - 1) # drop (Suc (n - 1)) s"
    using lt by (rule id_take_nth_drop)
  with n have s: "s = take (n - 1) s @ NL # drop n s" by simp
  have "lines_of (take (n - 1) s @ NL # drop n s)
          = lines_of (take (n - 1) s @ [NL]) @ lines_of (drop n s)"
    by (rule lines_of_split_at_nl)
  with s have "lines_of s = lines_of (take (n - 1) s @ [NL]) @ lines_of (drop n s)" by simp
  moreover have "subseq (lines_of (drop n s))
      (lines_of (take (n - 1) s @ [NL]) @ lines_of (drop n s))"
    by (rule list_emb_append2) (rule subseq_order.order_refl)
  ultimately show ?thesis by (simp only:)
qed

text \<open>The removal of the markers keeps whole lines, and none that is the marker.\<close>

lemma sub_marker_match:
  assumes "match_here (marker_pattern symb) True s = Some n"
  shows "sub_from (marker_pattern symb) [] True s
           = sub_from (marker_pattern symb) [] True (drop n s)"
proof -
  obtain q where q: "marker_pattern symb = Bol # One (Ch CHR ''#'') # q"
    using marker_pattern_shape by blast
  note e = marker_match_ends_line [OF assms]
  have 1: "sub_from (marker_pattern symb) [] True s
           = sub_from (marker_pattern symb) [] (s ! (n - 1) = NL) (drop n s)"
    using sub_from_match [OF assms [unfolded q], of "[]"] unfolding q by simp
  show ?thesis
  proof (cases "drop n s = []")
    case True
    with 1 show ?thesis unfolding q by (simp add: sub_from_Nil)
  next
    case False
    with e(3) have "s ! (n - 1) = NL" by (simp add: ends_line_def)
    with 1 show ?thesis by simp
  qed
qed

lemma sub_marker_lines:
  "subseq (lines_of (sub_from (marker_pattern symb) [] True s)) (lines_of s)
   \<and> marker_line symb \<notin> set (lines_of (sub_from (marker_pattern symb) [] True s))"
proof (induction s rule: length_induct)
  case (1 s)
  let ?M = "marker_pattern symb"
  obtain q where q: "?M = Bol # One (Ch CHR ''#'') # q"
    using marker_pattern_shape by blast
  show ?case
  proof (cases "s = []")
    case True
    then show ?thesis unfolding q by (simp add: sub_from_Nil)
  next
    case ne: False
    show ?thesis
    proof (cases "match_here ?M True s")
      case (Some n)
      note e = marker_match_ends_line [OF Some]
      from e(1) ne have "length (drop n s) < length s" by simp
      with 1 have ih: "subseq (lines_of (sub_from ?M [] True (drop n s))) (lines_of (drop n s))"
        "marker_line symb \<notin> set (lines_of (sub_from ?M [] True (drop n s)))"
        by blast+
      have "subseq (lines_of (drop n s)) (lines_of s)"
        using e(3) e(2) by (rule lines_of_drop_subseq)
      with ih(1) have "subseq (lines_of (sub_from ?M [] True (drop n s))) (lines_of s)"
        by (rule subseq_order.order_trans)
      with ih(2) show ?thesis by (simp only: sub_marker_match [OF Some] simp_thms)
    next
      case None
      have out: "sub_from ?M [] True s
         = first_line s @ (if NL \<in> set s then NL # sub_from ?M [] True (after_first_line s) else [])"
        using sub_from_no_match [OF None [unfolded q] ne, of "[]"] unfolding q .
      have notm: "first_line s \<noteq> marker_line symb"
      proof
        assume m: "first_line s = marker_line symb"
        have "s = marker_line symb @ (if NL \<in> set s then NL # after_first_line s else [])"
          using line_decomp [of s] m by simp
        moreover have "match_here ?M True
            (marker_line symb @ (if NL \<in> set s then NL # after_first_line s else [])) \<noteq> None"
          by (rule marker_pattern_matches_marker) simp
        ultimately show False using None by simp
      qed
      have ls: "lines_of s = first_line s # lines_of (after_first_line s)"
        using ne by (rule lines_of_unfold)
      show ?thesis
      proof (cases "NL \<in> set s")
        case True
        let ?o = "sub_from ?M [] True (after_first_line s)"
        from True out have "sub_from ?M [] True s = first_line s @ NL # ?o" by simp
        then have lo: "lines_of (sub_from ?M [] True s) = first_line s # lines_of ?o"
          using lines_of_cons_line [OF first_line_no_nl] by simp
        have "length (after_first_line s) < length s" using ne by (rule length_after_first_line)
        with 1 have ih: "subseq (lines_of ?o) (lines_of (after_first_line s))"
          "marker_line symb \<notin> set (lines_of ?o)"
          by blast+
        from ih notm show ?thesis unfolding lo ls by auto
      next
        case False
        with out have o: "sub_from ?M [] True s = first_line s" by simp
        from False have "first_line s = s" by (rule first_line_id)
        with o have o': "sub_from ?M [] True s = s" by simp
        from False ne have "lines_of s = [s]" by (rule lines_of_single)
        with notm \<open>first_line s = s\<close> show ?thesis unfolding o' by simp
      qed
    qed
  qed
qed

section \<open>Searching for an assignment line, and appending one\<close>

lemma search_from_None_shift:
  "search_from p b s k = None \<longleftrightarrow> search_from p b s k' = None"
  by (induction s arbitrary: b k k') (auto split: option.splits)

lemma search_from_off_line:
  "search_from (Bol # q) False s k = None \<longleftrightarrow>
     (NL \<in> set s \<longrightarrow> search_from (Bol # q) True (after_first_line s) 0 = None)"
proof (induction s arbitrary: k)
  case Nil
  then show ?case by simp
next
  case (Cons c s)
  show ?case
  proof (cases "c = NL")
    case True
    then show ?thesis using search_from_None_shift [of "Bol # q" True s "Suc k" 0] by simp
  next
    case False
    with Cons [of "Suc k"] show ?thesis by simp
  qed
qed

lemma search_assign_prefix_step:
  assumes "s \<noteq> []"
  shows "search_from (assign_prefix_pattern symb) True s 0 = None \<longleftrightarrow>
     \<not> prefix (assign_prefix symb) s
     \<and> (NL \<in> set s \<longrightarrow> search_from (assign_prefix_pattern symb) True (after_first_line s) 0 = None)"
proof -
  let ?p = "assign_prefix_pattern symb"
  obtain q where q: "?p = Bol # q" by (simp add: assign_prefix_pattern_def)
  from assms obtain c s' where s: "s = c # s'" by (cases s) auto
  have m: "match_here ?p True s = None \<longleftrightarrow> \<not> prefix (assign_prefix symb) s"
    by (simp add: match_assign_prefix)
  have r: "search_from ?p (c = NL) s' (Suc 0) = None \<longleftrightarrow>
     (NL \<in> set s \<longrightarrow> search_from ?p True (after_first_line s) 0 = None)"
  proof (cases "c = NL")
    case True
    then show ?thesis unfolding s using search_from_None_shift [of ?p True s' "Suc 0" 0] by simp
  next
    case False
    then show ?thesis unfolding s q using search_from_off_line [of q s' "Suc 0"] by simp
  qed
  have "search_from ?p True s 0 = None \<longleftrightarrow>
          match_here ?p True s = None \<and> search_from ?p (c = NL) s' (Suc 0) = None"
    unfolding s by (cases "match_here ?p True (c # s')") simp_all
  with m r show ?thesis by simp
qed

lemma re_search_assign_prefix:
  assumes "NL \<notin> set symb"
  shows "re_search (assign_prefix_pattern symb) s = None \<longleftrightarrow>
           (\<forall>l\<in>set (lines_of s). \<not> prefix (assign_prefix symb) l)"
proof -
  have nlP: "NL \<notin> set (assign_prefix symb)" using assms by (simp add: assign_prefix_def)
  have "search_from (assign_prefix_pattern symb) True s 0 = None \<longleftrightarrow>
           (\<forall>l\<in>set (lines_of s). \<not> prefix (assign_prefix symb) l)"
  proof (induction s rule: line_induct)
    case (line s)
    show ?case
    proof (cases "s = []")
      case True
      then show ?thesis by (simp add: match_assign_prefix assign_prefix_nonempty)
    next
      case False
      note st = search_assign_prefix_step [OF False, of symb]
      note ls = lines_of_unfold [OF False]
      show ?thesis
      proof (cases "NL \<in> set s")
        case True
        with st line [OF False] ls show ?thesis
          by (simp add: prefix_first_line [OF nlP])
      next
        case nonl: False
        then have "after_first_line s = []" by (rule after_first_line_none)
        with st nonl ls show ?thesis by (simp add: prefix_first_line [OF nlP])
      qed
    qed
  qed
  then show ?thesis by (simp add: re_search_def)
qed

lemma lines_of_before_line:
  assumes "NL \<notin> set l"
  shows "lines_of ((a @ [NL]) @ l @ [NL]) = lines_of (a @ [NL]) @ [l]"
proof -
  have "lines_of (a @ NL # (l @ [NL])) = lines_of (a @ [NL]) @ lines_of (l @ [NL])"
    by (rule lines_of_split_at_nl)
  moreover have "lines_of (l @ NL # []) = l # lines_of []"
    using assms by (rule lines_of_cons_line)
  ultimately show ?thesis by simp
qed

lemma lines_of_append_line:
  assumes "NL \<notin> set l"
  shows "lines_of (append_line t l)
           = lines_of (if ends_with_nl t then t else t @ [NL]) @ [l]"
proof (cases "ends_with_nl t")
  case True
  then have "t \<noteq> []" "last t = NL" by (simp_all add: ends_with_nl_def)
  then have "butlast t @ [NL] = t" by (metis append_butlast_last_id)
  then obtain a where a: "a @ [NL] = t" ..
  have "lines_of ((a @ [NL]) @ l @ [NL]) = lines_of (a @ [NL]) @ [l]"
    using assms by (rule lines_of_before_line)
  then have "lines_of (t @ l @ [NL]) = lines_of t @ [l]" unfolding a .
  with True show ?thesis by (simp add: append_line_def)
next
  case False
  have "lines_of ((t @ [NL]) @ l @ [NL]) = lines_of (t @ [NL]) @ [l]"
    using assms by (rule lines_of_before_line)
  with False show ?thesis by (simp add: append_line_def)
qed

lemma lines_of_snoc_nl:
  "set (lines_of (t @ [NL])) \<subseteq> set (lines_of t) \<union> {[]}"
proof (induction t rule: line_induct)
  case (line t)
  show ?case
  proof (cases "t = []")
    case True
    then show ?thesis by simp
  next
    case False
    show ?thesis
    proof (cases "NL \<in> set t")
      case True
      define l r where "l = first_line t" and "r = after_first_line t"
      from True have t: "t = l @ NL # r" unfolding l_def r_def using line_decomp [of t] by simp
      have nl: "NL \<notin> set l" unfolding l_def by (rule first_line_no_nl)
      have "lines_of ((l @ NL # r) @ [NL]) = l # lines_of (r @ [NL])"
        using lines_of_cons_line [OF nl, of "r @ [NL]"] by simp
      moreover have "lines_of (l @ NL # r) = l # lines_of r"
        using nl by (rule lines_of_cons_line)
      moreover have "set (lines_of (r @ [NL])) \<subseteq> set (lines_of r) \<union> {[]}"
        unfolding r_def by (rule line [OF False])
      ultimately have "set (lines_of ((l @ NL # r) @ [NL])) \<subseteq> set (lines_of (l @ NL # r)) \<union> {[]}"
        by auto
      then show ?thesis unfolding t .
    next
      case nonl: False
      then have "lines_of (t @ NL # []) = t # lines_of []" by (rule lines_of_cons_line)
      moreover from nonl False have "lines_of t = [t]" by (rule lines_of_single)
      ultimately show ?thesis by simp
    qed
  qed
qed

section \<open>The Config-Symbol Setter leaves the assignment and no marker\<close>

lemma config_line_facts:
  assumes "NL \<notin> set symb" and "NL \<notin> set val"
  shows "config_line symb val = assign_prefix symb @ val"
    and "prefix (assign_prefix symb) (config_line symb val)"
    and "NL \<notin> set (config_line symb val)"
    and "config_line symb val \<noteq> []"
    and "config_line symb val \<noteq> marker_line symb"
  using assms by (simp_all add: config_line_def assign_prefix_def marker_line_def)

lemma count_list_rewritten:
  assumes "prefix P L"
  shows "count_list (map (\<lambda>l. if prefix P l then L else l) ls) L = length (filter (prefix P) ls)"
  using assms by (induction ls) auto

lemma count_list_absent: "x \<notin> set xs \<Longrightarrow> count_list xs x = 0"
  by (induction xs) auto

lemma set_defconfig_text_lines:
  assumes nls: "NL \<notin> set symb" and nlv: "NL \<notin> set val"
  shows "config_line symb val \<in> set (lines_of (set_defconfig_text symb val t))"
    and "marker_line symb \<notin> set (lines_of (set_defconfig_text symb val t))"
    and "\<forall>l\<in>set (lines_of (set_defconfig_text symb val t)).
            prefix (assign_prefix symb) l \<longrightarrow> l = config_line symb val"
    and "length (filter (prefix (assign_prefix symb)) (lines_of t)) \<le> 1 \<longrightarrow>
           count_list (lines_of (set_defconfig_text symb val t)) (config_line symb val) = 1"
proof -
  let ?L = "config_line symb val" and ?P = "assign_prefix symb"
  let ?t1 = "re_sub (marker_pattern symb) [] t"
  let ?out = "set_defconfig_text symb val t"
  let ?f = "\<lambda>l. if prefix ?P l then ?L else l"
  note L = config_line_facts [OF nls nlv]
  have t1: "subseq (lines_of ?t1) (lines_of t)" "marker_line symb \<notin> set (lines_of ?t1)"
    using sub_marker_lines [of symb t] by (simp_all add: re_sub_def)
  have le: "length (filter (prefix ?P) (lines_of ?t1)) \<le> length (filter (prefix ?P) (lines_of t))"
    using t1(1) by (intro list_emb_length [of "(=)"] subseq_filter)
  have goal: "?L \<in> set (lines_of ?out) \<and> marker_line symb \<notin> set (lines_of ?out)
      \<and> (\<forall>l\<in>set (lines_of ?out). prefix ?P l \<longrightarrow> l = ?L)
      \<and> (length (filter (prefix ?P) (lines_of ?t1)) \<le> 1 \<longrightarrow> count_list (lines_of ?out) ?L = 1)"
  proof (cases "re_search (assign_prefix_pattern symb) ?t1 = None")
    case False
    then have out: "?out = re_sub (assign_line_pattern symb) ?L ?t1"
      by (simp add: set_defconfig_text_def Let_def)
    have lo: "lines_of ?out = map ?f (lines_of ?t1)"
      unfolding out re_sub_def by (rule lines_of_sub_assign [OF nls L(3) L(4)])
    from False have "\<not> (\<forall>l\<in>set (lines_of ?t1). \<not> prefix ?P l)"
      using re_search_assign_prefix [OF nls, of ?t1] by simp
    then obtain l where l: "l \<in> set (lines_of ?t1)" "prefix ?P l" by blast
    from l(1) have "?f l \<in> ?f ` set (lines_of ?t1)" by (rule imageI)
    with l(2) have "?L \<in> ?f ` set (lines_of ?t1)" by simp
    then have 1: "?L \<in> set (lines_of ?out)" unfolding lo by (simp only: set_map)
    have 2: "marker_line symb \<notin> set (lines_of ?out)"
      unfolding lo using t1(2) L(5) by auto
    have 3: "\<forall>l\<in>set (lines_of ?out). prefix ?P l \<longrightarrow> l = ?L"
      unfolding lo by auto
    have c: "count_list (lines_of ?out) ?L = length (filter (prefix ?P) (lines_of ?t1))"
      unfolding lo using L(2) by (rule count_list_rewritten)
    from l have "filter (prefix ?P) (lines_of ?t1) \<noteq> []" by (auto simp: filter_empty_conv)
    then have "1 \<le> length (filter (prefix ?P) (lines_of ?t1))"
      by (cases "filter (prefix ?P) (lines_of ?t1)") auto
    with c have 4: "length (filter (prefix ?P) (lines_of ?t1)) \<le> 1 \<longrightarrow> count_list (lines_of ?out) ?L = 1"
      by simp
    from 1 2 3 4 show ?thesis by blast
  next
    case True
    then have out: "?out = append_line ?t1 ?L"
      by (simp add: set_defconfig_text_def Let_def)
    let ?t1' = "if ends_with_nl ?t1 then ?t1 else ?t1 @ [NL]"
    have lo: "lines_of ?out = lines_of ?t1' @ [?L]"
      unfolding out using L(3) by (rule lines_of_append_line)
    have sub: "set (lines_of ?t1') \<subseteq> set (lines_of ?t1) \<union> {[]}"
      using lines_of_snoc_nl [of ?t1] by auto
    from True have np: "\<forall>l\<in>set (lines_of ?t1). \<not> prefix ?P l"
      using re_search_assign_prefix [OF nls, of ?t1] by simp
    have np': "\<forall>l\<in>set (lines_of ?t1'). \<not> prefix ?P l"
      using np sub assign_prefix_nonempty [of symb] by auto
    have 1: "?L \<in> set (lines_of ?out)" unfolding lo by simp
    have 2: "marker_line symb \<notin> set (lines_of ?out)"
      unfolding lo using t1(2) sub L(5) by (auto simp: marker_line_def)
    have 3: "\<forall>l\<in>set (lines_of ?out). prefix ?P l \<longrightarrow> l = ?L"
      unfolding lo using np' by auto
    have "?L \<notin> set (lines_of ?t1')" using np' L(2) by blast
    then have "count_list (lines_of ?t1') ?L = 0" by (rule count_list_absent)
    then have 4: "count_list (lines_of ?out) ?L = 1" unfolding lo by simp
    from 1 2 3 4 show ?thesis by blast
  qed
  from goal show "?L \<in> set (lines_of ?out)" by blast
  from goal show "marker_line symb \<notin> set (lines_of ?out)" by blast
  from goal show "\<forall>l\<in>set (lines_of ?out). prefix ?P l \<longrightarrow> l = ?L" by blast
  from goal le show "length (filter (prefix ?P) (lines_of t)) \<le> 1 \<longrightarrow> count_list (lines_of ?out) ?L = 1"
    by auto
qed

text \<open>
  C3, as amended. For a symbol and a value without newline or backslash and every
  regular file, \<^verbatim>\<open>set_defconfig_symbol\<close> writes a text in which the line
  \<^verbatim>\<open>CONFIG_<sym>=<value>\<close> occurs at least once, every line that starts with
  \<^verbatim>\<open>CONFIG_<sym>=\<close> is that line, and no line is the disabled marker
  \<^verbatim>\<open># CONFIG_<sym> is not set\<close>. The line occurs exactly once when at most one line of
  the file starts with \<^verbatim>\<open>CONFIG_<sym>=\<close>; when several do, each of them is rewritten.
  So a file in which at most one line starts with \<^verbatim>\<open>CONFIG_KSU=\<close>, whether that line is
  \<^verbatim>\<open>CONFIG_KSU=n\<close> or the file has the marker for \<^verbatim>\<open>KSU\<close> instead or besides, ends
  with exactly one line \<^verbatim>\<open>CONFIG_KSU=y\<close>; the file with the two lines \<^verbatim>\<open>CONFIG_KSU=n\<close>
  and \<^verbatim>\<open>CONFIG_KSU=m\<close> ends with two.
\<close>

theorem set_defconfig_symbol_result:
  assumes "nodes s p = Some (File c)" and "NL \<notin> set symb" and "NL \<notin> set val"
    and "CHR 0x5C \<notin> set symb \<union> set val"
  shows "\<exists>out. set_defconfig_symbol p symb val s = (None, write_text p out s)
           \<and> config_line symb val \<in> set (lines_of out)
           \<and> marker_line symb \<notin> set (lines_of out)
           \<and> (\<forall>l\<in>set (lines_of out). prefix (assign_prefix symb) l \<longrightarrow> l = config_line symb val)
           \<and> (length (filter (prefix (assign_prefix symb)) (lines_of (universal_newlines c))) \<le> 1
                \<longrightarrow> count_list (lines_of out) (config_line symb val) = 1)"
proof -
  let ?out = "set_defconfig_text symb val (universal_newlines c)"
  have "set_defconfig_symbol p symb val s = (None, write_text p ?out s)"
    using assms(1) by (simp add: set_defconfig_symbol_def read_text_def)
  with set_defconfig_text_lines [OF assms(2,3), of "universal_newlines c"] show ?thesis
    by blast
qed

theorem set_defconfig_symbol_result_witness:
  "(\<exists>out. set_defconfig_symbol (defconfig [''k'']) ''KSU'' ''y'' (defconfig_state ksu_off)
            = (None, write_text (defconfig [''k'']) out (defconfig_state ksu_off))
         \<and> ''CONFIG_KSU=y'' \<in> set (lines_of out)
         \<and> ''# CONFIG_KSU is not set'' \<notin> set (lines_of out)
         \<and> count_list (lines_of out) ''CONFIG_KSU=y'' = 1)
   \<and> (\<exists>out. set_defconfig_symbol (defconfig [''k'']) ''KSU'' ''y'' (defconfig_state ksu_marked)
            = (None, write_text (defconfig [''k'']) out (defconfig_state ksu_marked))
         \<and> ''CONFIG_KSU=y'' \<in> set (lines_of out)
         \<and> ''# CONFIG_KSU is not set'' \<notin> set (lines_of out)
         \<and> count_list (lines_of out) ''CONFIG_KSU=y'' = 1)
   \<and> set_defconfig_text ''KSU'' ''y'' (universal_newlines ksu_off)
       = ''CONFIG_A=y'' @ [NL] @ ''CONFIG_KSU=y'' @ [NL]
   \<and> set_defconfig_text ''KSU'' ''y'' (universal_newlines ksu_marked)
       = ''CONFIG_A=y'' @ [NL] @ ''CONFIG_KSU=y'' @ [NL]"
proof -
  have h: "NL \<notin> set ''KSU''" "NL \<notin> set ''y''" "CHR 0x5C \<notin> set ''KSU'' \<union> set ''y''"
    by simp_all
  have n1: "nodes (defconfig_state ksu_off) (defconfig [''k'']) = Some (File ksu_off)"
    and n2: "nodes (defconfig_state ksu_marked) (defconfig [''k'']) = Some (File ksu_marked)"
    by (simp_all add: defconfig_state_def)
  have c1: "length (filter (prefix (assign_prefix ''KSU'')) (lines_of (universal_newlines ksu_off))) \<le> 1"
    and c2: "length (filter (prefix (assign_prefix ''KSU'')) (lines_of (universal_newlines ksu_marked))) \<le> 1"
    by code_simp+
  have v: "config_line ''KSU'' ''y'' = ''CONFIG_KSU=y''"
    "marker_line ''KSU'' = ''# CONFIG_KSU is not set''"
    by (simp_all add: config_line_def marker_line_def)
  have e: "set_defconfig_text ''KSU'' ''y'' (universal_newlines ksu_off)
       = ''CONFIG_A=y'' @ [NL] @ ''CONFIG_KSU=y'' @ [NL]"
    "set_defconfig_text ''KSU'' ''y'' (universal_newlines ksu_marked)
       = ''CONFIG_A=y'' @ [NL] @ ''CONFIG_KSU=y'' @ [NL]"
    by code_simp+
  from set_defconfig_symbol_result [OF n1 h] c1 v
  have 1: "\<exists>out. set_defconfig_symbol (defconfig [''k'']) ''KSU'' ''y'' (defconfig_state ksu_off)
            = (None, write_text (defconfig [''k'']) out (defconfig_state ksu_off))
         \<and> ''CONFIG_KSU=y'' \<in> set (lines_of out)
         \<and> ''# CONFIG_KSU is not set'' \<notin> set (lines_of out)
         \<and> count_list (lines_of out) ''CONFIG_KSU=y'' = 1"
    by auto
  from set_defconfig_symbol_result [OF n2 h] c2 v
  have 2: "\<exists>out. set_defconfig_symbol (defconfig [''k'']) ''KSU'' ''y'' (defconfig_state ksu_marked)
            = (None, write_text (defconfig [''k'']) out (defconfig_state ksu_marked))
         \<and> ''CONFIG_KSU=y'' \<in> set (lines_of out)
         \<and> ''# CONFIG_KSU is not set'' \<notin> set (lines_of out)
         \<and> count_list (lines_of out) ''CONFIG_KSU=y'' = 1"
    by auto
  from 1 2 e show ?thesis by blast
qed

text \<open>
  The claim as stated fails: a file that assigns the symbol twice has both lines
  rewritten, so the line occurs twice.
\<close>

theorem set_defconfig_symbol_twice_counterexample:
  "fst (set_defconfig_symbol (defconfig [''k'']) ''KSU'' ''y'' (defconfig_state ksu_twice)) = None
   \<and> nodes (snd (set_defconfig_symbol (defconfig [''k'']) ''KSU'' ''y'' (defconfig_state ksu_twice)))
        (defconfig [''k''])
      = Some (File (''CONFIG_KSU=y'' @ [NL] @ ''CONFIG_KSU=y'' @ [NL]))
   \<and> count_list (lines_of (''CONFIG_KSU=y'' @ [NL] @ ''CONFIG_KSU=y'' @ [NL])) ''CONFIG_KSU=y'' = 2"
  by code_simp

section \<open>Running the orchestrated mutations twice\<close>

text \<open>
  C2. The claim does not hold of the code. In \<open>split_marker_state\<close> the defconfig has a
  disabled marker for \<^verbatim>\<open>KSU\<close> between a line \<^verbatim>\<open>#\<close> and a line
  \<^verbatim>\<open>CONFIG_KSU is not set\<close>. The first run of \<^verbatim>\<open>patch_kernel_tree\<close> removes the marker;
  the two lines around it, now adjacent, match the marker pattern themselves (its \<^verbatim>\<open>\s\<close>
  matches the newline between them), so the second run removes them too and the
  defconfig after two runs differs from the defconfig after one.
\<close>

theorem patch_kernel_tree_twice_differs:
  "fst (patch_kernel_tree [''k''] split_marker_state) = None
   \<and> fst (patch_kernel_tree [''k''] (snd (patch_kernel_tree [''k''] split_marker_state))) = None
   \<and> nodes (snd (patch_kernel_tree [''k''] split_marker_state)) (defconfig [''k''])
      = Some (File (''#'' @ [NL] @ ''CONFIG_KSU is not set'' @ [NL] @ ''CONFIG_KSU=y'' @ [NL]
                    @ ''CONFIG_KPROBES=y'' @ [NL] @ ''CONFIG_KPROBE_EVENTS=y'' @ [NL]))
   \<and> nodes (snd (patch_kernel_tree [''k''] (snd (patch_kernel_tree [''k''] split_marker_state))))
        (defconfig [''k''])
      = Some (File (''CONFIG_KSU=y'' @ [NL] @ ''CONFIG_KPROBES=y'' @ [NL]
                    @ ''CONFIG_KPROBE_EVENTS=y'' @ [NL]))
   \<and> nodes (snd (patch_kernel_tree [''k''] (snd (patch_kernel_tree [''k''] split_marker_state))))
        (defconfig [''k''])
      \<noteq> nodes (snd (patch_kernel_tree [''k''] split_marker_state)) (defconfig [''k''])"
  by code_simp

end
